(* ===== verification/Prelude.thy ===== *)
theory Prelude
  imports Main
begin

section \<open>Shared vocabulary of the folder-watcher model\<close>

text \<open>
  This theory holds what every component of \<open>src/Watch.py\<close> shares: the Python
  exceptions the code can raise, the result type of an operation that may raise after
  it has already changed state, the model of \<open>os.stat\<close> as a partial function
  from paths to attribute values, and Python's \<open>list.remove\<close> at a known position.
  The collection \<open>watch_simps\<close> gathers the evaluation equations the component
  proofs and the witnesses use.
\<close>

named_theorems watch_simps "evaluation equations of the watcher model"

subsection \<open>Exceptions and results\<close>

text \<open>
  The exceptions the program can raise: \<open>os.stat\<close> on a path that has vanished
  raises \<open>FileNotFoundError\<close> (with the path), \<open>f[0]\<close> on an empty name raises
  \<open>IndexError\<close>, \<open>input()\<close> at end of input raises \<open>EOFError\<close>.
\<close>

datatype py_error = FileNotFoundError string | IndexError | EOFError

text \<open>
  A Python method that raises keeps the effects it made before the raise (log lines
  already written, list entries already appended). A result is therefore either the
  exception together with the state at the raise (\<open>Inl\<close>), or the final state
  (\<open>Inr\<close>).
\<close>

type_synonym 's result = "(py_error \<times> 's) + 's"

definition then_r :: "'s result \<Rightarrow> ('s \<Rightarrow> 's result) \<Rightarrow> 's result" where
  "then_r r f = (case r of Inl es \<Rightarrow> Inl es | Inr s \<Rightarrow> f s)"

definition res_state :: "'s result \<Rightarrow> 's" where
  "res_state r = (case r of Inl (e, s) \<Rightarrow> s | Inr s \<Rightarrow> s)"

lemma then_r_Inl [simp, watch_simps]: "then_r (Inl es) f = Inl es"
  by (simp add: then_r_def)

lemma then_r_Inr [simp, watch_simps]: "then_r (Inr s) f = f s"
  by (simp add: then_r_def)

lemma res_state_simps [simp, watch_simps]:
  "res_state (Inl (e, s)) = s" "res_state (Inr s) = s"
  by (simp_all add: res_state_def)

lemma res_state_then_r:
  "res_state (then_r r f) = (case r of Inl es \<Rightarrow> res_state r | Inr s \<Rightarrow> res_state (f s))"
  by (cases r) auto

lemma then_r_assoc: "then_r (then_r r f) g = then_r r (\<lambda>s. then_r (f s) g)"
  by (cases r) auto

lemma then_r_Inr_iff:
  "then_r r f = Inr s \<longleftrightarrow> (\<exists>s'. r = Inr s' \<and> f s' = Inr s)"
  by (cases r) auto

lemma then_r_Inl_iff:
  "then_r r f = Inl es \<longleftrightarrow> r = Inl es \<or> (\<exists>s'. r = Inr s' \<and> f s' = Inl es)"
  by (cases r) auto

subsection \<open>The file system as seen by \<open>os.stat\<close>\<close>

text \<open>
  During one call of a method the file system is a fixed partial function from paths to
  attribute values (\<open>os.stat_result\<close>, compared with \<open>==\<close>): \<open>None\<close> is a path
  that does not exist. \<open>os_stat\<close> raises \<open>FileNotFoundError\<close> there.
\<close>

type_synonym 'a stat_fn = "string \<Rightarrow> 'a option"

definition os_stat :: "'a stat_fn \<Rightarrow> string \<Rightarrow> py_error + 'a" where
  "os_stat st p = (case st p of None \<Rightarrow> Inl (FileNotFoundError p) | Some a \<Rightarrow> Inr a)"

lemma os_stat_simps [simp, watch_simps]:
  "st p = None \<Longrightarrow> os_stat st p = Inl (FileNotFoundError p)"
  "st p = Some a \<Longrightarrow> os_stat st p = Inr a"
  by (simp_all add: os_stat_def)

subsection \<open>Removing the list element at a position\<close>

text \<open>
  \<open>xs.remove(x)\<close> deletes the first element that is \<open>x\<close> or equal to it. The
  watcher's \<open>File\<close> objects have no \<open>__eq__\<close>, so equality is identity, and each
  object is in the list once: removing the object found at position \<open>i\<close> deletes
  position \<open>i\<close>.
\<close>

definition del_at :: "nat \<Rightarrow> 'a list \<Rightarrow> 'a list" where
  "del_at i xs = take i xs @ drop (Suc i) xs"

lemma del_at_append_Cons [simp]: "del_at (length pre) (pre @ x # rest) = pre @ rest"
  by (simp add: del_at_def)

lemma length_del_at [simp]: "i < length xs \<Longrightarrow> length (del_at i xs) = length xs - 1"
  by (simp add: del_at_def)

subsection \<open>Generic list facts\<close>

lemma nth_append_length_plus [simp]: "(pre @ x # rest) ! length pre = x"
  by (simp add: nth_append)

lemma distinct_map_snoc_iff:
  "distinct (map f (xs @ [x])) \<longleftrightarrow> distinct (map f xs) \<and> f x \<notin> f ` set xs"
  by auto

end
