(* ===== verification/Log.thy ===== *)
theory Log
  imports Prelude
begin

section \<open>The event sink: \<open>log\<close>\<close>

text \<open>
  \<open>log(filename, option)\<close> (\<open>src/Watch.py\<close>, lines 13--33) formats one line from the
  current date, the path and an integer option (1 added, 2 removed, 3 modified, 4 found)
  and hands it to \<open>logging.info\<close>; any other option logs nothing. The line is written
  with the format \<open>[INFO] %(message)s\<close> set up in \<open>main_function\<close> (line 233).

  The model keeps two views of a log call: \<open>log_message\<close> is the formatted message for a
  given date string, and \<open>log\<close> is its effect on the trace of events (path and kind) that
  the rest of the development reasons about. \<open>parse_message\<close> reads a message back; the
  round trip shows that a log line determines the path and the kind it reports.
\<close>

datatype event_kind = Added | Removed | Modified | Found

type_synonym event = "string \<times> event_kind"

text \<open>The dispatch on \<open>option\<close>, in the order of the \<open>if\<close>/\<open>elif\<close> chain.\<close>

fun option_kind :: "int \<Rightarrow> event_kind option" where
  "option_kind opt =
     (if opt = 1 then Some Added
      else if opt = 2 then Some Removed
      else if opt = 3 then Some Modified
      else if opt = 4 then Some Found
      else None)"

fun kind_code :: "event_kind \<Rightarrow> int" where
  "kind_code Added = 1"
| "kind_code Removed = 2"
| "kind_code Modified = 3"
| "kind_code Found = 4"

fun kind_text :: "event_kind \<Rightarrow> string" where
  "kind_text Added = '' was added.''"
| "kind_text Removed = '' was removed.''"
| "kind_text Modified = '' was modified.''"
| "kind_text Found = '' was found.''"

definition log_message :: "string \<Rightarrow> string \<Rightarrow> int \<Rightarrow> string option" where
  "log_message date filename option =
     (if option = 1 then Some (date @ '' '' @ filename @ '' was added.'')
      else if option = 2 then Some (date @ '' '' @ filename @ '' was removed.'')
      else if option = 3 then Some (date @ '' '' @ filename @ '' was modified.'')
      else if option = 4 then Some (date @ '' '' @ filename @ '' was found.'')
      else None)"

definition log_line :: "string \<Rightarrow> string \<Rightarrow> int \<Rightarrow> string option" where
  "log_line date filename option = map_option (\<lambda>m. ''[INFO] '' @ m) (log_message date filename option)"

definition log :: "string \<Rightarrow> int \<Rightarrow> event list \<Rightarrow> event list" where
  "log filename option evs =
     (case option_kind option of None \<Rightarrow> evs | Some k \<Rightarrow> evs @ [(filename, k)])"

subsection \<open>Reading a message back\<close>

definition ends_with :: "string \<Rightarrow> string \<Rightarrow> bool" where
  "ends_with s b \<longleftrightarrow> take (length s) (rev b) = rev s"

definition parse_body :: "string \<Rightarrow> (string \<times> int) option" where
  "parse_body body =
     (case find (\<lambda>k. ends_with (kind_text k) body) [Added, Removed, Modified, Found] of
        None \<Rightarrow> None
      | Some k \<Rightarrow> Some (take (length body - length (kind_text k)) body, kind_code k))"

definition parse_message :: "string \<Rightarrow> string \<Rightarrow> (string \<times> int) option" where
  "parse_message date m =
     (if take (Suc (length date)) m = date @ '' '' then parse_body (drop (Suc (length date)) m)
      else None)"

subsection \<open>Lemmas\<close>

lemma option_kind_Some_iff: "option_kind opt = Some k \<longleftrightarrow> opt = kind_code k"
  by (cases k) (simp_all split: if_splits)

lemma option_kind_None_iff: "option_kind opt = None \<longleftrightarrow> opt \<notin> {1, 2, 3, 4}"
  by auto

lemma option_kind_code [simp, watch_simps]: "option_kind (kind_code k) = Some k"
  by (cases k) simp_all

lemma log_message_kind:
  "log_message date filename option =
     map_option (\<lambda>k. date @ '' '' @ filename @ kind_text k) (option_kind option)"
  by (simp add: log_message_def)

lemma log_code [simp, watch_simps]: "log filename (kind_code k) evs = evs @ [(filename, k)]"
  by (cases k) (simp_all add: log_def)

lemma log_numerals [simp, watch_simps]:
  "log f 1 evs = evs @ [(f, Added)]" "log f 2 evs = evs @ [(f, Removed)]"
  "log f 3 evs = evs @ [(f, Modified)]" "log f 4 evs = evs @ [(f, Found)]"
  by (simp_all add: log_def)

lemma ends_with_kind_text: "ends_with (kind_text k) (fn @ kind_text k)"
  by (simp add: ends_with_def)

lemma ends_with_other_kind:
  assumes "k' \<noteq> k" shows "\<not> ends_with (kind_text k') (fn @ kind_text k)"
  using assms by (cases k; cases k') (simp_all add: ends_with_def)

lemma parse_body_kind: "parse_body (fn @ kind_text k) = Some (fn, kind_code k)"
proof -
  have "find (\<lambda>k'. ends_with (kind_text k') (fn @ kind_text k)) [Added, Removed, Modified, Found]
        = Some k"
    by (cases k) (simp_all add: ends_with_def)
  then show ?thesis by (simp add: parse_body_def)
qed

text \<open>
  C8: a log message can be read back: the path and the option that produced it are
  recovered from the message and the date, for every path, even one that itself contains
  a text like \<open>was added.\<close>.
\<close>

theorem log_message_roundtrip:
  assumes "log_message date fn opt = Some m"
  shows "parse_message date m = Some (fn, opt)"
proof -
  from assms obtain k where k: "option_kind opt = Some k" and m: "m = date @ '' '' @ fn @ kind_text k"
    by (auto simp: log_message_kind)
  from k have opt: "opt = kind_code k" by (rule option_kind_Some_iff [THEN iffD1])
  have "take (Suc (length date)) m = date @ '' ''" and "drop (Suc (length date)) m = fn @ kind_text k"
    by (simp_all add: m)
  then show ?thesis by (simp add: parse_message_def parse_body_kind opt)
qed

end
