(* ===== verification/Files.thy ===== *)
theory Files
  imports Log
begin

section \<open>The \<open>File\<close> and \<open>FileList\<close> classes\<close>

text \<open>
  \<open>File\<close> (\<open>src/Watch.py\<close>, lines 113--144) pairs a path with the \<open>os.stat\<close> result
  observed for it. \<open>FileList\<close> (lines 36--79) keeps the tracked \<open>File\<close> objects in
  \<open>list\<close>, a \<^emph>\<open>class\<close> attribute: \<open>__init__\<close> sets only \<open>debug\<close> and
  \<open>log_file\<close> on the instance, and \<open>append\<close>/\<open>remove\<close> mutate the one list object
  that every instance shares. The model therefore splits the state in two: the instance
  record \<open>FileList\<close> with the two instance attributes, and the \<open>world\<close> with the
  shared class list \<open>FileList_list\<close> and the trace of logged events. (A record field
  named \<open>list\<close> would clash with HOL's \<open>list_update\<close>.)

  This theory holds the constructor, \<open>length\<close>, \<open>add\<close> and \<open>add_list\<close>, the
  comparisons of \<open>File\<close>, and what \<open>add_list\<close> computes on every branch.
\<close>

record 'a File =
  path :: string
  attributes :: 'a

definition File_same_name :: "'a File \<Rightarrow> string \<Rightarrow> bool" where
  "File_same_name f file \<longleftrightarrow> path f = file"

definition File_same_attributes :: "'a stat_fn \<Rightarrow> 'a File \<Rightarrow> string \<Rightarrow> py_error + bool" where
  "File_same_attributes st f file =
     (case os_stat st file of Inl e \<Rightarrow> Inl e | Inr a \<Rightarrow> Inr (a = attributes f))"

record FileList =
  debug :: bool
  log_file :: string

record 'a world =
  FileList_list :: "'a File list"
  logged :: "event list"

definition FileList_init :: "bool \<Rightarrow> string \<Rightarrow> FileList" where
  "FileList_init d lf = \<lparr>debug = d, log_file = lf\<rparr>"

definition FileList_length :: "'a world \<Rightarrow> nat" where
  "FileList_length w = length (FileList_list w)"

definition FileList_add :: "'a stat_fn \<Rightarrow> string \<Rightarrow> 'a world \<Rightarrow> 'a world result" where
  "FileList_add st file w =
     (case os_stat st file of
        Inl e \<Rightarrow> Inl (e, w)
      | Inr a \<Rightarrow> Inr (w\<lparr>FileList_list := FileList_list w @ [\<lparr>path = file, attributes = a\<rparr>]\<rparr>))"

fun FileList_add_list :: "'a stat_fn \<Rightarrow> string list \<Rightarrow> bool \<Rightarrow> 'a world \<Rightarrow> 'a world result" where
  "FileList_add_list st [] first w = Inr w"
| "FileList_add_list st (f # fs) first w =
     then_r (FileList_add st f w)
       (\<lambda>w'. FileList_add_list st fs first
               (w'\<lparr>logged := log f (if first then 4 else 1) (logged w')\<rparr>))"

text \<open>The \<open>File\<close> object \<open>add\<close> creates for a path that exists.\<close>

abbreviation stat_file :: "'a stat_fn \<Rightarrow> string \<Rightarrow> 'a File" where
  "stat_file st p \<equiv> \<lparr>path = p, attributes = the (st p)\<rparr>"

abbreviation tracked :: "'a world \<Rightarrow> string set" where
  "tracked w \<equiv> path ` set (FileList_list w)"

subsection \<open>\<open>add\<close> and \<open>add_list\<close>\<close>

lemma FileList_add_ok [simp, watch_simps]:
  "st file = Some a \<Longrightarrow>
   FileList_add st file w = Inr (w\<lparr>FileList_list := FileList_list w @ [\<lparr>path = file, attributes = a\<rparr>]\<rparr>)"
  by (simp add: FileList_add_def)

lemma FileList_add_missing [simp, watch_simps]:
  "st file = None \<Longrightarrow> FileList_add st file w = Inl (FileNotFoundError file, w)"
  by (simp add: FileList_add_def)

lemma FileList_add_list_ok:
  assumes "\<forall>p \<in> set fl. st p \<noteq> None"
  shows "FileList_add_list st fl first w =
           Inr (w\<lparr>FileList_list := FileList_list w @ map (stat_file st) fl,
                  logged := logged w @ map (\<lambda>p. (p, if first then Found else Added)) fl\<rparr>)"
  using assms
proof (induction fl arbitrary: w)
  case Nil
  then show ?case by simp
next
  case (Cons f fs)
  then obtain a where "st f = Some a" by auto
  with Cons show ?case by simp
qed

lemma FileList_add_list_error:
  assumes "\<forall>q \<in> set pre. st q \<noteq> None" and "st p = None"
  shows "FileList_add_list st (pre @ p # post) first w =
           Inl (FileNotFoundError p,
                w\<lparr>FileList_list := FileList_list w @ map (stat_file st) pre,
                  logged := logged w @ map (\<lambda>q. (q, if first then Found else Added)) pre\<rparr>)"
  using assms
proof (induction pre arbitrary: w)
  case Nil
  then show ?case by simp
next
  case (Cons f fs)
  then obtain a where "st f = Some a" by auto
  with Cons show ?case by simp
qed

lemma FileList_add_list_Inl_iff:
  "(\<exists>es. FileList_add_list st fl first w = Inl es) \<longleftrightarrow> (\<exists>p \<in> set fl. st p = None)"
proof
  assume "\<exists>es. FileList_add_list st fl first w = Inl es"
  then obtain es where err: "FileList_add_list st fl first w = Inl es" by blast
  show "\<exists>p \<in> set fl. st p = None"
  proof (rule ccontr)
    assume "\<not> (\<exists>p \<in> set fl. st p = None)"
    then have "\<forall>p \<in> set fl. st p \<noteq> None" by simp
    from FileList_add_list_ok [OF this, of first w] err show False by simp
  qed
next
  assume "\<exists>p \<in> set fl. st p = None"
  then obtain pre p post where "fl = pre @ p # post" and "st p = None"
    and "\<forall>q \<in> set pre. st q \<noteq> None"
    using split_list_first_prop [of fl "\<lambda>p. st p = None"] by blast
  then show "\<exists>es. FileList_add_list st fl first w = Inl es"
    using FileList_add_list_error by blast
qed

lemma FileList_add_list_distinct:
  assumes "distinct fl" and "FileList_list w = []"
  shows "distinct (map path (FileList_list (res_state (FileList_add_list st fl first w))))"
proof (cases "\<exists>p \<in> set fl. st p = None")
  case True
  then obtain pre p post where fl: "fl = pre @ p # post" and "st p = None"
    and "\<forall>q \<in> set pre. st q \<noteq> None"
    using split_list_first_prop [of fl "\<lambda>p. st p = None"] by blast
  then have "FileList_add_list st fl first w =
           Inl (FileNotFoundError p,
                w\<lparr>FileList_list := FileList_list w @ map (stat_file st) pre,
                  logged := logged w @ map (\<lambda>q. (q, if first then Found else Added)) pre\<rparr>)"
    by (simp add: FileList_add_list_error)
  with assms fl show ?thesis by (simp add: comp_def)
next
  case False
  then have "\<forall>p \<in> set fl. st p \<noteq> None" by simp
  from FileList_add_list_ok [OF this, of first w] assms show ?thesis by (simp add: comp_def)
qed

text \<open>
  C7: the first crawl (\<open>add_list(..., True)\<close> on the empty list) tracks every listed
  path with its current attributes, in order, logs one \<open>found\<close> line per path, and
  \<open>length()\<close> is then the number of listed paths.
\<close>

theorem FileList_add_list_initial:
  assumes "FileList_list w = []" and "\<forall>p \<in> set fl. st p \<noteq> None"
  shows "\<exists>w'. FileList_add_list st fl True w = Inr w' \<and>
           FileList_list w' = map (stat_file st) fl \<and>
           logged w' = logged w @ map (\<lambda>p. (p, Found)) fl \<and>
           FileList_length w' = length fl"
  using FileList_add_list_ok [OF assms(2), of True w] assms(1) by (simp add: FileList_length_def)

end
