(* ===== verification/Compare.thy ===== *)
theory Compare
  imports Files
begin

section \<open>\<open>FileList.compare\<close>: the diff of one scan cycle\<close>

text \<open>
  \<open>compare(filelist)\<close> (\<open>src/Watch.py\<close>, lines 81--110) runs in two passes over the
  shared class list. The first pass (lines 93--106) takes each listed path, scans the
  whole list for a \<open>File\<close> of the same name (the last match wins, since the loop keeps
  overwriting \<open>corresponding_file\<close>), and either logs \<open>modified\<close> and re-stats it
  when its attributes differ, or logs \<open>added\<close> and appends it. The second pass
  (lines 107--110) iterates over the list and removes every \<open>File\<close> whose path is not
  listed, \<^emph>\<open>while\<close> iterating: CPython's list iterator holds a position, and
  \<open>remove\<close> shifts the rest of the list left, so the element right after a removed one
  is never looked at in that cycle.

  The guard \<open>self.length == 0\<close> (line 89) compares the bound method object with the
  integer 0; a method object is never equal to an int, so the branch that calls
  \<open>add_list\<close> is dead. \<open>bound_method_equals_int\<close> records that comparison.
\<close>

definition bound_method_equals_int :: "int \<Rightarrow> bool" where
  "bound_method_equals_int n = False"

text \<open>The inner \<open>for f in self.list\<close> loop: the position of the last same-named \<open>File\<close>.\<close>

fun find_match :: "string \<Rightarrow> nat \<Rightarrow> 'a File list \<Rightarrow> nat option \<Rightarrow> nat option" where
  "find_match file i [] corr = corr"
| "find_match file i (f # fs) corr =
     find_match file (Suc i) fs (if File_same_name f file then Some i else corr)"

text \<open>One iteration of the outer loop (lines 94--106).\<close>

definition compare_file :: "'a stat_fn \<Rightarrow> string \<Rightarrow> 'a world \<Rightarrow> 'a world result" where
  "compare_file st file w =
     (case find_match file 0 (FileList_list w) None of
        Some i \<Rightarrow>
          (case File_same_attributes st (FileList_list w ! i) file of
             Inl e \<Rightarrow> Inl (e, w)
           | Inr True \<Rightarrow> Inr w
           | Inr False \<Rightarrow>
               (let w1 = w\<lparr>logged := log file 3 (logged w)\<rparr> in
                case os_stat st file of
                  Inl e \<Rightarrow> Inl (e, w1)
                | Inr a \<Rightarrow> Inr (w1\<lparr>FileList_list :=
                      (FileList_list w1)[i := (FileList_list w1 ! i)\<lparr>attributes := a\<rparr>]\<rparr>)))
      | None \<Rightarrow> FileList_add st file (w\<lparr>logged := log file 1 (logged w)\<rparr>))"

fun compare_files :: "'a stat_fn \<Rightarrow> string list \<Rightarrow> 'a world \<Rightarrow> 'a world result" where
  "compare_files st [] w = Inr w"
| "compare_files st (file # fs) w = then_r (compare_file st file w) (compare_files st fs)"

text \<open>
  The removal loop (lines 107--110), with the iterator position \<open>i\<close> explicit: the
  iterator yields \<open>list[i]\<close> and moves to \<open>i + 1\<close> whatever the body does.
\<close>

function remove_loop :: "string list \<Rightarrow> nat \<Rightarrow> 'a world \<Rightarrow> 'a world" where
  "remove_loop filelist i w =
     (if i < length (FileList_list w) then
        (let f = FileList_list w ! i in
         if path f \<notin> set filelist then
           remove_loop filelist (Suc i)
             (w\<lparr>logged := log (path f) 2 (logged w), FileList_list := del_at i (FileList_list w)\<rparr>)
         else remove_loop filelist (Suc i) w)
      else w)"
  by pat_completeness auto
termination
  by (relation "measure (\<lambda>(fl, i, w). length (FileList_list w) - i)") auto

declare remove_loop.simps [simp del]

definition FileList_compare :: "'a stat_fn \<Rightarrow> string list \<Rightarrow> 'a world \<Rightarrow> 'a world result" where
  "FileList_compare st filelist w =
     (if bound_method_equals_int 0 then FileList_add_list st filelist False w
      else then_r (compare_files st filelist w) (\<lambda>w'. Inr (remove_loop filelist 0 w')))"

text \<open>The equations that evaluate \<open>compare\<close> on a concrete list.\<close>

lemmas compare_eval [watch_simps] =
  compare_file_def File_same_name_def File_same_attributes_def del_at_def

subsection \<open>The removal pass against a reference sweep\<close>

text \<open>
  \<open>sweep fl skip xs\<close> splits \<open>xs\<close> into the \<open>File\<close>s kept and the ones removed, in
  order; \<open>skip\<close> says that the element before was removed, so this one is not examined.
\<close>

fun sweep :: "string list \<Rightarrow> bool \<Rightarrow> 'a File list \<Rightarrow> 'a File list \<times> 'a File list" where
  "sweep fl skip [] = ([], [])"
| "sweep fl True (f # fs) = apfst (Cons f) (sweep fl False fs)"
| "sweep fl False (f # fs) =
     (if path f \<notin> set fl then apsnd (Cons f) (sweep fl True fs)
      else apfst (Cons f) (sweep fl False fs))"

text \<open>Two neighbours in the list whose paths are both no longer listed.\<close>

fun adjacent_stale :: "string list \<Rightarrow> string list \<Rightarrow> bool" where
  "adjacent_stale fl [] = False"
| "adjacent_stale fl [p] = False"
| "adjacent_stale fl (p # q # ps) = ((p \<notin> set fl \<and> q \<notin> set fl) \<or> adjacent_stale fl (q # ps))"

abbreviation removed_events :: "'a File list \<Rightarrow> event list" where
  "removed_events fs \<equiv> map (\<lambda>f. (path f, Removed)) fs"

lemma remove_loop_unfold [watch_simps]:
  "remove_loop fl i w =
     (if i < length (FileList_list w) then
        (if path (FileList_list w ! i) \<notin> set fl then
           remove_loop fl (Suc i)
             (w\<lparr>logged := logged w @ [(path (FileList_list w ! i), Removed)],
                FileList_list := del_at i (FileList_list w)\<rparr>)
         else remove_loop fl (Suc i) w)
      else w)"
  by (subst remove_loop.simps) (simp add: Let_def)

lemma remove_loop_sweep_gen:
  assumes "FileList_list w = pre @ rest"
  shows "remove_loop fl (length pre + (if skip then 1 else 0)) w =
           w\<lparr>FileList_list := pre @ fst (sweep fl skip rest),
             logged := logged w @ removed_events (snd (sweep fl skip rest))\<rparr>"
  using assms
proof (induction rest arbitrary: pre skip w)
  case Nil
  then show ?case by (simp add: remove_loop_unfold)
next
  case (Cons x rest)
  show ?case
  proof (cases skip)
    case True
    have "remove_loop fl (length (pre @ [x]) + 0) w =
            w\<lparr>FileList_list := (pre @ [x]) @ fst (sweep fl False rest),
              logged := logged w @ removed_events (snd (sweep fl False rest))\<rparr>"
      using Cons.IH [where pre = "pre @ [x]" and skip = False and w = w] Cons.prems by simp
    with True show ?thesis by (simp add: split_beta)
  next
    case False
    show ?thesis
    proof (cases "path x \<in> set fl")
      case True
      have "remove_loop fl (length (pre @ [x]) + 0) w =
              w\<lparr>FileList_list := (pre @ [x]) @ fst (sweep fl False rest),
                logged := logged w @ removed_events (snd (sweep fl False rest))\<rparr>"
        using Cons.IH [where pre = "pre @ [x]" and skip = False and w = w] Cons.prems by simp
      with False True Cons.prems show ?thesis
        by (simp add: remove_loop_unfold [of fl "length pre"] split_beta)
    next
      case stale: False
      let ?w' = "w\<lparr>logged := logged w @ [(path x, Removed)], FileList_list := pre @ rest\<rparr>"
      have "remove_loop fl (length pre + 1) ?w' =
              ?w'\<lparr>FileList_list := pre @ fst (sweep fl True rest),
                 logged := logged ?w' @ removed_events (snd (sweep fl True rest))\<rparr>"
        using Cons.IH [where pre = pre and skip = True and w = ?w'] by simp
      with False stale Cons.prems show ?thesis
        by (simp add: remove_loop_unfold [of fl "length pre"] split_beta)
    qed
  qed
qed

corollary remove_loop_sweep:
  "remove_loop fl 0 w =
     w\<lparr>FileList_list := fst (sweep fl False (FileList_list w)),
       logged := logged w @ removed_events (snd (sweep fl False (FileList_list w)))\<rparr>"
  using remove_loop_sweep_gen [of w "[]" "FileList_list w" fl False] by simp

subsection \<open>The match loop\<close>

lemma find_match_notin [simp]:
  "file \<notin> path ` set xs \<Longrightarrow> find_match file i xs corr = corr"
  by (induction xs arbitrary: i) (auto simp: File_same_name_def)

lemma find_match_append:
  "find_match file i (xs @ ys) corr = find_match file (i + length xs) ys (find_match file i xs corr)"
  by (induction xs arbitrary: i corr) auto

lemma find_match_last:
  assumes "path y = file" and "\<forall>z \<in> set post. path z \<noteq> file"
  shows "find_match file i (pre @ y # post) corr = Some (i + length pre)"
proof -
  have "file \<notin> path ` set post" using assms(2) by auto
  with assms(1) show ?thesis by (simp add: find_match_append File_same_name_def)
qed

lemma last_occurrence_split:
  assumes "file \<in> path ` set xs"
  shows "\<exists>pre y post. xs = pre @ y # post \<and> path y = file \<and> (\<forall>z \<in> set post. path z \<noteq> file)"
proof -
  from assms have "\<exists>x \<in> set xs. path x = file" by auto
  then show ?thesis using split_list_last_prop [of xs "\<lambda>f. path f = file"] by blast
qed

lemma find_match_None_iff:
  "find_match file 0 xs None = None \<longleftrightarrow> file \<notin> path ` set xs"
proof
  assume none: "find_match file 0 xs None = None"
  show "file \<notin> path ` set xs"
  proof
    assume "file \<in> path ` set xs"
    then obtain pre y post where "xs = pre @ y # post" "path y = file"
      "\<forall>z \<in> set post. path z \<noteq> file"
      using last_occurrence_split by blast
    with none show False by (simp add: find_match_last)
  qed
qed simp

subsection \<open>One iteration of the first pass, on every branch\<close>

lemma compare_file_untracked:
  assumes "file \<notin> tracked w"
  shows "compare_file st file w =
     (case st file of
        None \<Rightarrow> Inl (FileNotFoundError file, w\<lparr>logged := logged w @ [(file, Added)]\<rparr>)
      | Some a \<Rightarrow> Inr (w\<lparr>logged := logged w @ [(file, Added)],
                     FileList_list := FileList_list w @ [\<lparr>path = file, attributes = a\<rparr>]\<rparr>))"
  using assms by (simp add: compare_file_def FileList_add_def os_stat_def split: option.splits)

lemma compare_file_tracked:
  assumes "FileList_list w = pre @ y # post" "path y = file" "\<forall>z \<in> set post. path z \<noteq> file"
  shows "compare_file st file w =
     (case st file of
        None \<Rightarrow> Inl (FileNotFoundError file, w)
      | Some a \<Rightarrow>
          (if a = attributes y then Inr w
           else Inr (w\<lparr>logged := logged w @ [(file, Modified)],
                      FileList_list := pre @ y\<lparr>attributes := a\<rparr> # post\<rparr>)))"
  using assms
  by (simp add: compare_file_def find_match_last File_same_attributes_def os_stat_def
      split: option.splits)

lemma compare_file_Inl_iff: "(\<exists>es. compare_file st file w = Inl es) \<longleftrightarrow> st file = None"
proof (cases "file \<in> tracked w")
  case True
  then obtain pre y post where "FileList_list w = pre @ y # post" "path y = file"
    "\<forall>z \<in> set post. path z \<noteq> file"
    using last_occurrence_split by blast
  then show ?thesis by (simp add: compare_file_tracked split: option.splits)
next
  case False
  then show ?thesis by (simp add: compare_file_untracked split: option.splits)
qed

lemma compare_file_res_paths:
  "map path (FileList_list (res_state (compare_file st file w))) =
     map path (FileList_list w) @ (if file \<in> tracked w \<or> st file = None then [] else [file])"
proof (cases "file \<in> tracked w")
  case True
  then obtain pre y post where "FileList_list w = pre @ y # post" "path y = file"
    "\<forall>z \<in> set post. path z \<noteq> file"
    using last_occurrence_split by blast
  with True show ?thesis by (simp add: compare_file_tracked split: option.splits)
next
  case False
  then show ?thesis by (simp add: compare_file_untracked split: option.splits)
qed

lemma compare_file_Inr_paths:
  "compare_file st file w = Inr w1 \<Longrightarrow>
     map path (FileList_list w1) = map path (FileList_list w) @ (if file \<in> tracked w then [] else [file])"
  using compare_file_res_paths [of st "file" w] compare_file_Inl_iff [of st "file" w] by auto

lemma compare_file_distinct:
  "distinct (map path (FileList_list w)) \<Longrightarrow>
   distinct (map path (FileList_list (res_state (compare_file st file w))))"
  by (simp add: compare_file_res_paths)

subsection \<open>The whole first pass\<close>

lemma compare_files_Inl_iff:
  "(\<exists>es. compare_files st fl w = Inl es) \<longleftrightarrow> (\<exists>p \<in> set fl. st p = None)"
proof (induction fl arbitrary: w)
  case Nil
  then show ?case by simp
next
  case (Cons p ps)
  show ?case
  proof (cases "compare_file st p w")
    case (Inl es)
    then have "st p = None" using compare_file_Inl_iff [of st p w] by blast
    then have "\<exists>q \<in> set (p # ps). st q = None" by simp
    moreover from Inl have "compare_files st (p # ps) w = Inl es" by simp
    ultimately show ?thesis by blast
  next
    case (Inr w1)
    then have "st p \<noteq> None" using compare_file_Inl_iff [of st p w] by simp
    moreover from Inr have "compare_files st (p # ps) w = compare_files st ps w1" by simp
    ultimately show ?thesis using Cons.IH [of w1] by auto
  qed
qed

lemma compare_files_distinct:
  "distinct (map path (FileList_list w)) \<Longrightarrow>
   distinct (map path (FileList_list (res_state (compare_files st fl w))))"
proof (induction fl arbitrary: w)
  case Nil
  then show ?case by simp
next
  case (Cons p ps)
  have d1: "distinct (map path (FileList_list (res_state (compare_file st p w))))"
    using Cons.prems by (rule compare_file_distinct)
  show ?case
  proof (cases "compare_file st p w")
    case (Inl es)
    with d1 show ?thesis by (cases es) simp
  next
    case (Inr w1)
    with d1 Cons.IH [of w1] show ?thesis by simp
  qed
qed

lemma compare_files_Inr_paths:
  "compare_files st fl w = Inr w1 \<Longrightarrow>
     \<exists>new. map path (FileList_list w1) = map path (FileList_list w) @ new \<and> set new = set fl - tracked w"
proof (induction fl arbitrary: w)
  case Nil
  then show ?case by simp
next
  case (Cons p ps)
  from Cons.prems obtain w2 where c1: "compare_file st p w = Inr w2"
    and c2: "compare_files st ps w2 = Inr w1"
    by (auto simp: then_r_Inr_iff)
  from Cons.IH [OF c2] obtain new where
    new: "map path (FileList_list w1) = map path (FileList_list w2) @ new"
      "set new = set ps - tracked w2" by blast
  have w2: "map path (FileList_list w2) = map path (FileList_list w) @ (if p \<in> tracked w then [] else [p])"
    using c1 by (rule compare_file_Inr_paths)
  then have "set (map path (FileList_list w2)) =
               set (map path (FileList_list w)) \<union> set (if p \<in> tracked w then [] else [p])"
    by simp
  then have "tracked w2 = insert p (tracked w)" by (auto split: if_splits)
  with new w2 show ?case
    by (intro exI [of _ "(if p \<in> tracked w then [] else [p]) @ new"]) auto
qed

subsection \<open>What the sweep keeps and removes\<close>

lemma sweep_Cons_simps [simp]:
  "fst (sweep fl True (f # fs)) = f # fst (sweep fl False fs)"
  "snd (sweep fl True (f # fs)) = snd (sweep fl False fs)"
  "path f \<in> set fl \<Longrightarrow> fst (sweep fl False (f # fs)) = f # fst (sweep fl False fs)"
  "path f \<in> set fl \<Longrightarrow> snd (sweep fl False (f # fs)) = snd (sweep fl False fs)"
  "path f \<notin> set fl \<Longrightarrow> fst (sweep fl False (f # fs)) = fst (sweep fl True fs)"
  "path f \<notin> set fl \<Longrightarrow> snd (sweep fl False (f # fs)) = f # snd (sweep fl True fs)"
  by simp_all

lemma sweep_fresh_kept:
  "filter (\<lambda>f. path f \<in> set fl) (fst (sweep fl skip xs)) = filter (\<lambda>f. path f \<in> set fl) xs"
proof (induction xs arbitrary: skip)
  case Nil
  then show ?case by simp
next
  case (Cons x xs)
  show ?case
  proof (cases skip)
    case True
    then show ?thesis using Cons.IH [of False] by simp
  next
    case False
    then show ?thesis using Cons.IH [of False] Cons.IH [of True] by (cases "path x \<in> set fl") simp_all
  qed
qed

lemma sweep_removed_stale: "f \<in> set (snd (sweep fl skip xs)) \<Longrightarrow> path f \<notin> set fl"
proof (induction xs arbitrary: skip)
  case Nil
  then show ?case by simp
next
  case (Cons x xs)
  then show ?case by (cases skip) (auto split: if_splits)
qed

lemma sweep_set: "set (fst (sweep fl skip xs)) \<union> set (snd (sweep fl skip xs)) = set xs"
proof (induction xs arbitrary: skip)
  case Nil
  then show ?case by simp
next
  case (Cons x xs)
  show ?case
  proof (cases skip)
    case True
    then show ?thesis using Cons.IH [of False] by auto
  next
    case False
    then show ?thesis using Cons.IH [of False] Cons.IH [of True]
      by (cases "path x \<in> set fl") auto
  qed
qed

lemma sweep_distinct:
  "distinct (map path xs) \<Longrightarrow> distinct (map path (fst (sweep fl skip xs)))"
proof (induction xs arbitrary: skip)
  case Nil
  then show ?case by simp
next
  case (Cons x xs)
  have "set (fst (sweep fl skip' xs)) \<subseteq> set xs" for skip'
    using sweep_set [of fl skip' xs] by blast
  with Cons show ?case by (cases skip) auto
qed

lemma sweep_paths:
  "distinct (map path xs) \<Longrightarrow>
     path ` set (fst (sweep fl skip xs)) = path ` set xs - path ` set (snd (sweep fl skip xs))"
proof (induction xs arbitrary: skip)
  case Nil
  then show ?case by simp
next
  case (Cons x xs)
  from Cons.prems have x: "path x \<notin> path ` set xs" and d: "distinct (map path xs)" by auto
  have sub: "path ` set (snd (sweep fl b xs)) \<subseteq> path ` set xs" for b
    using sweep_set [of fl b xs] by blast
  have IH: "path ` set (fst (sweep fl b xs)) = path ` set xs - path ` set (snd (sweep fl b xs))" for b
    using d by (rule Cons.IH)
  show ?case
  proof (cases "skip \<or> path x \<in> set fl")
    case True
    then have "sweep fl skip (x # xs) = apfst (Cons x) (sweep fl False xs)"
      by (cases skip) auto
    with IH [of False] sub [of False] x show ?thesis by auto
  next
    case False
    then have "sweep fl skip (x # xs) = apsnd (Cons x) (sweep fl True xs)"
      by (cases skip) auto
    with IH [of True] x show ?thesis by auto
  qed
qed


lemma sweep_removed_distinct:
  "distinct (map path xs) \<Longrightarrow> distinct (map path (snd (sweep fl skip xs)))"
proof (induction xs arbitrary: skip)
  case Nil
  then show ?case by simp
next
  case (Cons x xs)
  have "set (snd (sweep fl b xs)) \<subseteq> set xs" for b
    using sweep_set [of fl b xs] by blast
  with Cons show ?case by (cases skip; cases "path x \<in> set fl") force+
qed

lemma adjacent_stale_Cons:
  "adjacent_stale fl (p # ps) \<longleftrightarrow>
     (ps \<noteq> [] \<and> p \<notin> set fl \<and> hd ps \<notin> set fl) \<or> adjacent_stale fl ps"
  by (cases ps) auto

lemma sweep_kept_stale_iff:
  "(\<exists>f \<in> set (fst (sweep fl skip xs)). path f \<notin> set fl) \<longleftrightarrow>
     (skip \<and> xs \<noteq> [] \<and> path (hd xs) \<notin> set fl) \<or> adjacent_stale fl (map path xs)"
proof (induction xs arbitrary: skip)
  case Nil
  then show ?case by simp
next
  case (Cons x xs)
  have adj: "adjacent_stale fl (map path (x # xs)) \<longleftrightarrow>
      (xs \<noteq> [] \<and> path x \<notin> set fl \<and> path (hd xs) \<notin> set fl) \<or> adjacent_stale fl (map path xs)"
    by (cases xs) (simp_all only: list.map list.sel adjacent_stale_Cons list.simps, simp_all)
  show ?case
  proof (cases skip)
    case True
    then show ?thesis using Cons.IH [of False] adj by auto
  next
    case False
    show ?thesis
    proof (cases "path x \<in> set fl")
      case True
      with False show ?thesis using Cons.IH [of False] adj by auto
    next
      case stale: False
      with False show ?thesis using Cons.IH [of True] adj by auto
    qed
  qed
qed

lemma adjacent_stale_fresh: "\<forall>q \<in> set ps. q \<in> set fl \<Longrightarrow> \<not> adjacent_stale fl ps"
  by (induction fl ps rule: adjacent_stale.induct) auto

lemma adjacent_stale_append_fresh:
  "\<forall>q \<in> set new. q \<in> set fl \<Longrightarrow> adjacent_stale fl (ps @ new) = adjacent_stale fl ps"
proof (induction fl ps rule: adjacent_stale.induct)
  case (1 fl)
  then show ?case by (simp add: adjacent_stale_fresh)
next
  case (2 fl v)
  then show ?case by (cases new) (auto simp: adjacent_stale_fresh)
next
  case (3 fl p q ps)
  then show ?case by simp
qed

subsection \<open>Properties of \<open>compare\<close>\<close>

lemma FileList_compare_unfold [watch_simps]:
  "FileList_compare st fl w = then_r (compare_files st fl w) (\<lambda>w1. Inr (remove_loop fl 0 w1))"
  by (simp add: FileList_compare_def bound_method_equals_int_def)

lemma FileList_compare_Inr_split:
  assumes "FileList_compare st fl w = Inr w'"
  obtains w1 where "compare_files st fl w = Inr w1" and "w' = remove_loop fl 0 w1"
  using assms by (auto simp: FileList_compare_unfold then_r_Inr_iff)

lemma compare_files_tracked:
  "compare_files st fl w = Inr w1 \<Longrightarrow> tracked w1 = tracked w \<union> set fl"
proof -
  assume "compare_files st fl w = Inr w1"
  then obtain new where "map path (FileList_list w1) = map path (FileList_list w) @ new"
    "set new = set fl - tracked w"
    using compare_files_Inr_paths by blast
  then have "set (map path (FileList_list w1)) = set (map path (FileList_list w)) \<union> (set fl - tracked w)"
    by simp
  then show ?thesis by auto
qed

lemma remove_loop_tracked_listed:
  assumes "p \<in> set fl" and "p \<in> tracked w1"
  shows "p \<in> tracked (remove_loop fl 0 w1)"
proof -
  from assms obtain f where f: "f \<in> set (FileList_list w1)" "path f = p" by auto
  with assms(1) have "f \<in> set (filter (\<lambda>f. path f \<in> set fl) (FileList_list w1))" by simp
  then have "f \<in> set (filter (\<lambda>f. path f \<in> set fl) (fst (sweep fl False (FileList_list w1))))"
    by (simp only: sweep_fresh_kept)
  then have "f \<in> set (fst (sweep fl False (FileList_list w1)))" by simp
  with f show ?thesis by (force simp: remove_loop_sweep)
qed

lemma remove_loop_tracked_subset: "tracked (remove_loop fl 0 w1) \<subseteq> tracked w1"
  using sweep_set [of fl False "FileList_list w1"] by (auto simp: remove_loop_sweep)

lemma remove_loop_listed:
  assumes "compare_files st fl w = Inr w1"
  shows "set fl \<subseteq> tracked (remove_loop fl 0 w1)"
proof
  fix p assume p: "p \<in> set fl"
  with compare_files_tracked [OF assms] have "p \<in> tracked w1" by simp
  with p show "p \<in> tracked (remove_loop fl 0 w1)" by (rule remove_loop_tracked_listed)
qed

lemma compare_files_adjacent:
  assumes "compare_files st fl w = Inr w1"
  shows "adjacent_stale fl (map path (FileList_list w1)) = adjacent_stale fl (map path (FileList_list w))"
proof -
  from compare_files_Inr_paths [OF assms] obtain new where
    new: "map path (FileList_list w1) = map path (FileList_list w) @ new"
      "set new = set fl - tracked w"
    by blast
  have fresh: "\<forall>q \<in> set new. q \<in> set fl" using new(2) by blast
  show ?thesis unfolding new(1) using fresh by (rule adjacent_stale_append_fresh)
qed

text \<open>C1: \<open>compare\<close> is its first pass followed by the reference sweep of the second.\<close>

theorem FileList_compare_sweep:
  "FileList_compare st fl w =
     then_r (compare_files st fl w)
       (\<lambda>w1. Inr (w1\<lparr>FileList_list := fst (sweep fl False (FileList_list w1)),
                    logged := logged w1 @ removed_events (snd (sweep fl False (FileList_list w1)))\<rparr>))"
  by (simp add: FileList_compare_unfold remove_loop_sweep)

text \<open>
  C2: after a successful \<open>compare\<close> the tracked paths are exactly the listed ones if and
  only if no two neighbouring entries of the list before the call have both vanished.
\<close>

theorem FileList_compare_converges_iff:
  assumes "FileList_compare st fl w = Inr w'"
  shows "tracked w' = set fl \<longleftrightarrow> \<not> adjacent_stale fl (map path (FileList_list w))"
proof -
  from assms obtain w1 where c: "compare_files st fl w = Inr w1" and w': "w' = remove_loop fl 0 w1"
    by (rule FileList_compare_Inr_split)
  note adj = compare_files_adjacent [OF c]
  let ?kept = "fst (sweep fl False (FileList_list w1))"
  have kept: "tracked w' = path ` set ?kept" by (simp add: w' remove_loop_sweep)
  have listed: "set fl \<subseteq> tracked w'"
    using remove_loop_listed [OF c] w' by simp
  have "tracked w' = set fl \<longleftrightarrow> \<not> (\<exists>f \<in> set ?kept. path f \<notin> set fl)"
    using listed unfolding kept by (auto simp: image_subset_iff)
  also have "\<dots> \<longleftrightarrow> \<not> adjacent_stale fl (map path (FileList_list w1))"
    using sweep_kept_stale_iff [of fl False "FileList_list w1"] by simp
  finally show ?thesis using adj by simp
qed

text \<open>
  The paths of the shared list stay pairwise distinct across \<open>compare\<close>, whether it
  returns or raises part-way.
\<close>

lemma FileList_compare_distinct:
  assumes "distinct (map path (FileList_list w))"
  shows "distinct (map path (FileList_list (res_state (FileList_compare st fl w))))"
proof (cases "compare_files st fl w")
  case (Inl es)
  with compare_files_distinct [OF assms, of st fl] show ?thesis
    by (cases es) (simp add: FileList_compare_unfold)
next
  case (Inr w1)
  with compare_files_distinct [OF assms, of st fl] show ?thesis
    by (simp add: FileList_compare_unfold remove_loop_sweep sweep_distinct)
qed

lemma FileList_compare_ok:
  assumes "\<forall>p \<in> set fl. st p \<noteq> None"
  obtains w1 where "compare_files st fl w = Inr w1"
    and "FileList_compare st fl w = Inr (remove_loop fl 0 w1)"
proof -
  from assms compare_files_Inl_iff [of st fl w] obtain w1 where "compare_files st fl w = Inr w1"
    by (cases "compare_files st fl w") auto
  moreover from this have "FileList_compare st fl w = Inr (remove_loop fl 0 w1)"
    by (simp add: FileList_compare_unfold)
  ultimately show ?thesis by (rule that)
qed

lemma compare_files_append:
  "compare_files st (xs @ ys) w = then_r (compare_files st xs w) (compare_files st ys)"
  by (induction xs arbitrary: w) (auto simp: then_r_def split: sum.split)

lemma compare_file_logs_own:
  assumes "compare_file st q w = Inr w1"
  shows "\<exists>e. logged w1 = logged w @ e \<and> fst ` set e \<subseteq> {q}"
proof (cases "q \<in> tracked w")
  case False
  with assms show ?thesis by (auto simp: compare_file_untracked split: option.splits)
next
  case True
  then obtain pre y post where xs: "FileList_list w = pre @ y # post" and y: "path y = q"
    and post: "\<forall>z \<in> set post. path z \<noteq> q"
    using last_occurrence_split by blast
  from assms show ?thesis
    using compare_file_tracked [OF xs y post] by (auto split: option.splits if_splits)
qed

lemma compare_files_logs_own:
  "compare_files st fl w = Inr w1 \<Longrightarrow> \<exists>e. logged w1 = logged w @ e \<and> fst ` set e \<subseteq> set fl"
proof (induction fl arbitrary: w)
  case Nil
  then show ?case by simp
next
  case (Cons q fs)
  from Cons.prems obtain w0 where c: "compare_file st q w = Inr w0"
    and cs: "compare_files st fs w0 = Inr w1"
    by (auto simp: then_r_Inr_iff)
  from compare_file_logs_own [OF c] obtain e0 where "logged w0 = logged w @ e0" "fst ` set e0 \<subseteq> {q}"
    by blast
  moreover from Cons.IH [OF cs] obtain e1 where "logged w1 = logged w0 @ e1" "fst ` set e1 \<subseteq> set fs"
    by blast
  ultimately show ?case by (intro exI [of _ "e0 @ e1"]) auto
qed

text \<open>
  C6: the first listed path that cannot be stat-ed ends \<open>compare\<close> with
  \<open>FileNotFoundError\<close> for that path. The earlier paths are processed, the later ones
  and the removal pass are not; the path itself is not tracked, yet it is logged as
  added, as the last event, exactly when it was not tracked before. The spec says
  such a path is skipped without an event.
\<close>

theorem FileList_compare_first_vanished:
  assumes fl: "fl = pre @ q # post" and ok: "\<forall>p \<in> set pre. st p \<noteq> None" and q: "st q = None"
  shows "\<exists>w0. FileList_compare st fl w = Inl (FileNotFoundError q, w0) \<and>
           tracked w0 = tracked w \<union> set pre \<and>
           (\<exists>evs. logged w0 = logged w @ evs @ (if q \<in> tracked w then [] else [(q, Added)]) \<and>
                  fst ` set evs \<subseteq> set pre)"
proof -
  from ok compare_files_Inl_iff [of st pre w] obtain w1 where c1: "compare_files st pre w = Inr w1"
    by (cases "compare_files st pre w") auto
  have t1: "tracked w1 = tracked w \<union> set pre" by (rule compare_files_tracked [OF c1])
  from compare_files_logs_own [OF c1] obtain evs where l1: "logged w1 = logged w @ evs"
    and e: "fst ` set evs \<subseteq> set pre" by blast
  from ok q have qpre: "q \<notin> set pre" by auto
  have step: "compare_file st q w1 =
      Inl (FileNotFoundError q, if q \<in> tracked w then w1 else w1\<lparr>logged := logged w1 @ [(q, Added)]\<rparr>)"
  proof (cases "q \<in> tracked w")
    case True
    with t1 have "q \<in> tracked w1" by simp
    then obtain pre' y post' where xs: "FileList_list w1 = pre' @ y # post'" and y: "path y = q"
      and post: "\<forall>z \<in> set post'. path z \<noteq> q"
      using last_occurrence_split by blast
    from compare_file_tracked [OF xs y post] q True show ?thesis by simp
  next
    case False
    with t1 qpre have "q \<notin> tracked w1" by simp
    from compare_file_untracked [OF this] q False show ?thesis by simp
  qed
  have "FileList_compare st fl w =
      Inl (FileNotFoundError q, if q \<in> tracked w then w1 else w1\<lparr>logged := logged w1 @ [(q, Added)]\<rparr>)"
    by (simp add: FileList_compare_unfold fl compare_files_append c1 step)
  with t1 l1 e show ?thesis by (cases "q \<in> tracked w") auto
qed

text \<open>
  C4: \<open>compare\<close> raises exactly when some listed path cannot be stat-ed; it never
  skips such a path.
\<close>

theorem FileList_compare_Inl_iff:
  "(\<exists>es. FileList_compare st fl w = Inl es) \<longleftrightarrow> (\<exists>p \<in> set fl. st p = None)"
proof -
  have "(\<exists>es. FileList_compare st fl w = Inl es) \<longleftrightarrow> (\<exists>es. compare_files st fl w = Inl es)"
    by (cases "compare_files st fl w") (auto simp: FileList_compare_unfold)
  then show ?thesis using compare_files_Inl_iff [of st fl w] by blast
qed

text \<open>
  C5: after a successful \<open>compare\<close> every listed path is tracked, and every tracked path
  was tracked before or is listed.
\<close>

theorem FileList_compare_tracked:
  assumes "FileList_compare st fl w = Inr w'"
  shows "set fl \<subseteq> tracked w' \<and> tracked w' \<subseteq> tracked w \<union> set fl"
proof -
  from assms obtain w1 where c: "compare_files st fl w = Inr w1" and w': "w' = remove_loop fl 0 w1"
    by (rule FileList_compare_Inr_split)
  have "set fl \<subseteq> tracked w'"
    using remove_loop_listed [OF c] w' by simp
  moreover have "tracked w' \<subseteq> tracked w \<union> set fl"
    using remove_loop_tracked_subset [of fl w1] compare_files_tracked [OF c] w' by simp
  ultimately show ?thesis ..
qed

subsection \<open>Repeated cycles: the stale entries decrease\<close>

text \<open>The tracked entries whose path is not in the listing \<open>fl\<close>.\<close>

definition stale_count :: "string list \<Rightarrow> 'a world \<Rightarrow> nat" where
  "stale_count fl w = length (filter (\<lambda>p. p \<notin> set fl) (map path (FileList_list w)))"

lemma sweep_removes_first_stale:
  "\<exists>f \<in> set xs. path f \<notin> set fl \<Longrightarrow> snd (sweep fl False xs) \<noteq> []"
proof (induction xs)
  case Nil
  then show ?case by simp
next
  case (Cons x xs)
  then show ?case by (cases "path x \<in> set fl") auto
qed

lemma sweep_stale_length:
  "length (filter (\<lambda>f. path f \<notin> set fl) (fst (sweep fl skip xs))) + length (snd (sweep fl skip xs))
     = length (filter (\<lambda>f. path f \<notin> set fl) xs)"
proof (induction xs arbitrary: skip)
  case Nil
  then show ?case by simp
next
  case (Cons x xs)
  show ?case
  proof (cases skip)
    case True
    then show ?thesis using Cons.IH [of False] sweep_removed_stale [of _ fl False xs]
      by (cases "path x \<in> set fl") simp_all
  next
    case False
    then show ?thesis using Cons.IH [of False] Cons.IH [of True]
      by (cases "path x \<in> set fl") simp_all
  qed
qed

lemma stale_count_sweep:
  "stale_count fl (w\<lparr>FileList_list := fst (sweep fl False (FileList_list w)), logged := evs\<rparr>)
     + length (snd (sweep fl False (FileList_list w))) = stale_count fl w"
  using sweep_stale_length [of fl False "FileList_list w"]
  by (simp add: stale_count_def filter_map comp_def)

lemma compare_files_stale_count:
  "compare_files st fl w = Inr w1 \<Longrightarrow> stale_count fl w1 = stale_count fl w"
proof -
  assume c: "compare_files st fl w = Inr w1"
  from compare_files_Inr_paths [OF c] obtain new where
    new: "map path (FileList_list w1) = map path (FileList_list w) @ new" "set new = set fl - tracked w"
    by blast
  then have "filter (\<lambda>p. p \<notin> set fl) new = []" by (auto simp: filter_empty_conv)
  with new(1) show ?thesis by (simp add: stale_count_def)
qed

lemma compare_stale_decreases:
  assumes "FileList_compare st fl w = Inr w'"
  shows "stale_count fl w' \<le> stale_count fl w \<and> (0 < stale_count fl w \<longrightarrow> stale_count fl w' < stale_count fl w)"
proof -
  from assms obtain w1 where c: "compare_files st fl w = Inr w1" and w': "w' = remove_loop fl 0 w1"
    by (rule FileList_compare_Inr_split)
  have eq: "stale_count fl w' + length (snd (sweep fl False (FileList_list w1))) = stale_count fl w"
    using stale_count_sweep [where fl = fl and w = w1] compare_files_stale_count [OF c] by (simp add: w' remove_loop_sweep)
  have "snd (sweep fl False (FileList_list w1)) \<noteq> []" if pos: "0 < stale_count fl w"
  proof (rule sweep_removes_first_stale)
    from pos have "0 < stale_count fl w1" using compare_files_stale_count [OF c] by simp
    then show "\<exists>f \<in> set (FileList_list w1). path f \<notin> set fl"
      by (fastforce simp: stale_count_def filter_empty_conv)
  qed
  then have "0 < stale_count fl w \<Longrightarrow> 0 < length (snd (sweep fl False (FileList_list w1)))"
    by simp
  with eq show ?thesis by linarith
qed

lemma compare_converged_iff_stale:
  assumes "FileList_compare st fl w = Inr w'"
  shows "tracked w' = set fl \<longleftrightarrow> stale_count fl w' = 0"
proof -
  from assms obtain w1 where c: "compare_files st fl w = Inr w1" and w': "w' = remove_loop fl 0 w1"
    by (rule FileList_compare_Inr_split)
  have "set fl \<subseteq> tracked w'" using remove_loop_listed [OF c] w' by simp
  then show ?thesis by (auto simp: stale_count_def filter_empty_conv)
qed

subsection \<open>The dead first-crawl branch\<close>

text \<open>
  The guard \<open>self.length == 0\<close> (line 89) is never true, so on an empty list
  \<open>compare\<close> runs its two passes instead of \<open>add_list(filelist, False)\<close>.
\<close>

lemma sweep_all_listed: "\<forall>f \<in> set xs. path f \<in> set fl \<Longrightarrow> sweep fl False xs = (xs, [])"
  by (induction xs) auto

lemma compare_files_fresh:
  assumes "distinct fl" and "set fl \<inter> tracked w = {}" and "\<forall>p \<in> set fl. st p \<noteq> None"
  shows "compare_files st fl w = FileList_add_list st fl False w"
  using assms
proof (induction fl arbitrary: w)
  case Nil
  then show ?case by simp
next
  case (Cons q fs)
  from Cons.prems obtain a where a: "st q = Some a" and q: "q \<notin> tracked w" by auto
  let ?w1 = "w\<lparr>logged := logged w @ [(q, Added)],
                FileList_list := FileList_list w @ [\<lparr>path = q, attributes = a\<rparr>]\<rparr>"
  let ?w2 = "w\<lparr>FileList_list := FileList_list w @ [\<lparr>path = q, attributes = a\<rparr>],
                logged := logged w @ [(q, Added)]\<rparr>"
  have "set fs \<inter> tracked ?w1 = {}" using Cons.prems(1,2) by auto
  with Cons.prems have IH: "compare_files st fs ?w1 = FileList_add_list st fs False ?w1"
    by (intro Cons.IH) auto
  have "compare_files st (q # fs) w = compare_files st fs ?w1"
    using q a by (simp add: compare_file_untracked)
  also have "\<dots> = FileList_add_list st fs False ?w1" by (rule IH)
  also have "?w1 = ?w2" by (cases w) simp
  also have "FileList_add_list st fs False ?w2 = FileList_add_list st (q # fs) False w"
    using a by (simp add: FileList_add_def os_stat_def)
  finally show ?case .
qed

text \<open>
  C17: on an empty list, and a listing without repeated paths that can all be
  stat-ed, \<open>compare\<close> does what the dead branch would have done: it adds every path
  and logs it as \<open>added\<close>, not as \<open>found\<close>.
\<close>

theorem FileList_compare_empty:
  assumes e: "FileList_list w = []" and "distinct fl" and ok: "\<forall>p \<in> set fl. st p \<noteq> None"
  shows "FileList_compare st fl w = FileList_add_list st fl False w"
proof -
  from assms have c: "compare_files st fl w = FileList_add_list st fl False w"
    by (intro compare_files_fresh) auto
  have "\<forall>f \<in> set (map (stat_file st) fl). path f \<in> set fl" by auto
  then have "sweep fl False (map (stat_file st) fl) = (map (stat_file st) fl, [])"
    by (rule sweep_all_listed)
  with c e show ?thesis
    by (simp add: FileList_compare_unfold FileList_add_list_ok [OF ok] remove_loop_sweep)
qed

end
