(* ===== verification/Snapshot.thy ===== *)
theory Snapshot
  imports Compare
begin

section \<open>The snapshot a diff promises\<close>

text \<open>
  The contract of \<open>FileList.compare\<close> (\<open>src/Watch.py\<close>, lines 81--110) read off its
  comments: after a diff against the listing \<open>filelist\<close>, the \<open>File\<close> list describes
  exactly the listed paths, each with the attributes \<open>os.stat\<close> gives now. Abstractly
  the list is the map \<open>snapshot\<close> from paths to attributes, and the promised result is
  \<open>st |` set fl\<close>, the stat function restricted to the listing. This theory proves
  when the code meets that contract (a functional refinement under the invariant that
  paths are distinct), and that the first crawl meets it.
\<close>

definition snapshot :: "'a world \<Rightarrow> string \<rightharpoonup> 'a" where
  "snapshot w = map_of (map (\<lambda>f. (path f, attributes f)) (FileList_list w))"

text \<open>Every tracked entry whose path is in \<open>D\<close> carries the current attributes.\<close>

definition current_attrs :: "'a stat_fn \<Rightarrow> string set \<Rightarrow> 'a File list \<Rightarrow> bool" where
  "current_attrs st D xs \<longleftrightarrow> (\<forall>f \<in> set xs. path f \<in> D \<longrightarrow> st (path f) = Some (attributes f))"

lemma snapshot_Some_iff:
  assumes "distinct (map path (FileList_list w))"
  shows "snapshot w p = Some a \<longleftrightarrow> (\<exists>f \<in> set (FileList_list w). path f = p \<and> attributes f = a)"
proof -
  have "distinct (map fst (map (\<lambda>f. (path f, attributes f)) (FileList_list w)))"
    using assms by (simp add: comp_def)
  then show ?thesis by (auto simp: snapshot_def map_of_eq_Some_iff)
qed

lemma snapshot_None_iff: "snapshot w p = None \<longleftrightarrow> p \<notin> tracked w"
  by (auto simp: snapshot_def map_of_eq_None_iff image_iff)

lemma current_attrs_Nil [simp]: "current_attrs st D []"
  by (simp add: current_attrs_def)

lemma current_attrs_append [simp]:
  "current_attrs st D (xs @ ys) \<longleftrightarrow> current_attrs st D xs \<and> current_attrs st D ys"
  by (auto simp: current_attrs_def)

lemma current_attrs_Cons [simp]:
  "current_attrs st D (x # xs) \<longleftrightarrow> (path x \<in> D \<longrightarrow> st (path x) = Some (attributes x)) \<and> current_attrs st D xs"
  by (simp add: current_attrs_def)

lemma current_attrs_insert_other:
  "\<forall>f \<in> set xs. path f \<noteq> file \<Longrightarrow> current_attrs st (insert file D) xs \<longleftrightarrow> current_attrs st D xs"
  by (auto simp: current_attrs_def)


lemma compare_file_current:
  assumes c: "compare_file st file w = Inr w1"
    and d: "distinct (map path (FileList_list w))"
    and cur: "current_attrs st D (FileList_list w)"
  shows "current_attrs st (insert file D) (FileList_list w1)"
proof (cases "file \<in> tracked w")
  case False
  with c obtain a where "st file = Some a"
    and w1: "FileList_list w1 = FileList_list w @ [\<lparr>path = file, attributes = a\<rparr>]"
    by (auto simp: compare_file_untracked split: option.splits)
  from False have "\<forall>f \<in> set (FileList_list w). path f \<noteq> file" by auto
  with cur \<open>st file = Some a\<close> show ?thesis by (simp add: w1 current_attrs_insert_other)
next
  case True
  then obtain pre y post where xs: "FileList_list w = pre @ y # post" and y: "path y = file"
    and post: "\<forall>z \<in> set post. path z \<noteq> file"
    using last_occurrence_split by blast
  from d xs y have pre: "\<forall>z \<in> set pre. path z \<noteq> file" by (auto simp: image_iff)
  from c obtain a where a: "st file = Some a"
    using compare_file_tracked [OF xs y post] by (auto split: option.splits)
  from cur xs have rest: "current_attrs st (insert file D) pre \<and> current_attrs st (insert file D) post"
    using pre post by (simp add: current_attrs_insert_other)
  show ?thesis
  proof (cases "a = attributes y")
    case True
    with c a have "w1 = w" using compare_file_tracked [OF xs y post] by simp
    with rest xs y a True show ?thesis by simp
  next
    case False
    with c a have "FileList_list w1 = pre @ y\<lparr>attributes := a\<rparr> # post"
      using compare_file_tracked [OF xs y post] by auto
    with rest y a show ?thesis by simp
  qed
qed

lemma compare_files_current:
  assumes "compare_files st fl w = Inr w1"
    and "distinct (map path (FileList_list w))"
    and "current_attrs st D (FileList_list w)"
  shows "current_attrs st (D \<union> set fl) (FileList_list w1)"
  using assms
proof (induction fl arbitrary: w D)
  case Nil
  then show ?case by simp
next
  case (Cons q fs)
  from Cons.prems(1) obtain w0 where c: "compare_file st q w = Inr w0"
    and cs: "compare_files st fs w0 = Inr w1"
    by (auto simp: then_r_Inr_iff)
  from compare_file_distinct [OF Cons.prems(2), of st q] c
  have d0: "distinct (map path (FileList_list w0))" by simp
  from compare_file_current [OF c Cons.prems(2,3)]
  have "current_attrs st (insert q D) (FileList_list w0)" .
  from Cons.IH [OF cs d0 this] show ?case by simp
qed

lemma current_attrs_subset:
  "current_attrs st D xs \<Longrightarrow> set ys \<subseteq> set xs \<Longrightarrow> current_attrs st D ys"
  by (auto simp: current_attrs_def)

lemma compare_snapshot_converged:
  assumes d: "distinct (map path (FileList_list w))"
    and r: "FileList_compare st fl w = Inr w'" and only: "tracked w' \<subseteq> set fl"
  shows "snapshot w' = st |` set fl"
proof -
  from r obtain w1 where c: "compare_files st fl w = Inr w1" and w': "w' = remove_loop fl 0 w1"
    by (rule FileList_compare_Inr_split)
  let ?kept = "fst (sweep fl False (FileList_list w1))"
  have kept: "FileList_list w' = ?kept" by (simp add: w' remove_loop_sweep)
  from compare_files_distinct [OF d, of st fl] c
  have "distinct (map path (FileList_list w1))" by simp
  then have d': "distinct (map path (FileList_list w'))" by (simp add: kept sweep_distinct)
  have sub: "set ?kept \<subseteq> set (FileList_list w1)"
    using sweep_set [of fl False "FileList_list w1"] by blast
  have "current_attrs st {} (FileList_list w)" by (simp add: current_attrs_def)
  from compare_files_current [OF c d this]
  have "current_attrs st (set fl) (FileList_list w1)" by simp
  then have cur: "current_attrs st (set fl) (FileList_list w')"
    using current_attrs_subset [OF _ sub] by (simp add: kept)
  have listed: "set fl \<subseteq> tracked w'" using remove_loop_listed [OF c] w' by simp
  show ?thesis
  proof
    fix p
    show "snapshot w' p = (st |` set fl) p"
    proof (cases "p \<in> set fl")
      case True
      with listed obtain f where f: "f \<in> set (FileList_list w')" "path f = p" by auto
      with cur True have "st p = Some (attributes f)" by (auto simp: current_attrs_def)
      moreover from f have "snapshot w' p = Some (attributes f)" by (auto simp: snapshot_Some_iff [OF d'])
      ultimately show ?thesis using True by simp
    next
      case False
      with only have "p \<notin> tracked w'" by auto
      with False show ?thesis by (simp add: snapshot_None_iff)
    qed
  qed
qed

text \<open>
  C16: under the invariant that no path is tracked twice, a successful \<open>compare\<close>
  leaves exactly the promised snapshot, the current attributes of the listed paths,
  if and only if no two neighbouring tracked entries vanished together.
\<close>

theorem FileList_compare_snapshot:
  assumes d: "distinct (map path (FileList_list w))"
    and r: "FileList_compare st fl w = Inr w'"
  shows "snapshot w' = st |` set fl \<longleftrightarrow> \<not> adjacent_stale fl (map path (FileList_list w))"
proof -
  from r obtain w1 where c: "compare_files st fl w = Inr w1" and w': "w' = remove_loop fl 0 w1"
    by (rule FileList_compare_Inr_split)
  have stale_iff: "(\<exists>f \<in> set (FileList_list w'). path f \<notin> set fl) \<longleftrightarrow>
                   adjacent_stale fl (map path (FileList_list w))"
    using sweep_kept_stale_iff [of fl False "FileList_list w1"] compare_files_adjacent [OF c]
    by (simp add: w' remove_loop_sweep)
  show ?thesis
  proof
    assume eq: "snapshot w' = st |` set fl"
    show "\<not> adjacent_stale fl (map path (FileList_list w))"
    proof
      assume "adjacent_stale fl (map path (FileList_list w))"
      with stale_iff obtain f where "f \<in> set (FileList_list w')" "path f \<notin> set fl" by blast
      then have "snapshot w' (path f) \<noteq> None" by (auto simp: snapshot_None_iff)
      with eq \<open>path f \<notin> set fl\<close> show False by simp
    qed
  next
    assume "\<not> adjacent_stale fl (map path (FileList_list w))"
    with stale_iff have "tracked w' \<subseteq> set fl" by blast
    with d r show "snapshot w' = st |` set fl" by (rule compare_snapshot_converged)
  qed
qed

text \<open>
  The first crawl on the empty list leaves the promised snapshot: the current
  attributes of exactly the listed paths.
\<close>

lemma FileList_add_list_snapshot:
  assumes e: "FileList_list w = []" and r: "FileList_add_list st fl first w = Inr w'"
  shows "snapshot w' = st |` set fl"
proof -
  from r have ok: "\<forall>p \<in> set fl. st p \<noteq> None"
    using FileList_add_list_Inl_iff [of st fl first w] by auto
  from r FileList_add_list_ok [OF ok, of first w] e
  have "FileList_list w' = map (stat_file st) fl" by auto
  then have "snapshot w' = (Some \<circ> (\<lambda>p. the (st p))) |` set fl"
    by (simp add: snapshot_def comp_def map_of_map_restrict)
  also have "\<dots> = st |` set fl"
  proof
    fix p
    show "((Some \<circ> (\<lambda>p. the (st p))) |` set fl) p = (st |` set fl) p"
      using ok by (cases "p \<in> set fl") auto
  qed
  finally show ?thesis .
qed

lemma compare_file_stable:
  assumes d: "distinct (map path (FileList_list w))"
    and q: "q \<in> tracked w" and cur: "current_attrs st {q} (FileList_list w)"
  shows "compare_file st q w = Inr w"
proof -
  from q obtain pre y post where xs: "FileList_list w = pre @ y # post" and y: "path y = q"
    and post: "\<forall>z \<in> set post. path z \<noteq> q"
    using last_occurrence_split by blast
  from cur xs y have "st q = Some (attributes y)" by (simp add: current_attrs_def)
  then show ?thesis using compare_file_tracked [OF xs y post] by simp
qed

lemma compare_files_stable:
  assumes "distinct (map path (FileList_list w))"
    and "set fl \<subseteq> tracked w" and "current_attrs st (set fl) (FileList_list w)"
  shows "compare_files st fl w = Inr w"
  using assms(2,3)
proof (induction fl)
  case Nil
  then show ?case by simp
next
  case (Cons q fs)
  have "current_attrs st {q} (FileList_list w)"
    using Cons.prems(2) by (auto simp: current_attrs_def)
  with assms(1) Cons.prems(1) have "compare_file st q w = Inr w"
    by (intro compare_file_stable) auto
  moreover have "compare_files st fs w = Inr w"
    using Cons.prems by (intro Cons.IH) (auto simp: current_attrs_def)
  ultimately show ?case by simp
qed

lemma snapshot_restrict_current:
  assumes d: "distinct (map path (FileList_list w))" and s: "snapshot w = st |` set fl"
    and ok: "\<forall>p \<in> set fl. st p \<noteq> None"
  shows "tracked w = set fl" and "current_attrs st (set fl) (FileList_list w)"
proof -
  have "p \<in> tracked w \<longleftrightarrow> p \<in> set fl" for p
  proof -
    have "p \<in> tracked w \<longleftrightarrow> snapshot w p \<noteq> None" by (simp add: snapshot_None_iff)
    also have "\<dots> \<longleftrightarrow> p \<in> set fl" using ok by (cases "p \<in> set fl") (auto simp: s)
    finally show ?thesis .
  qed
  then show "tracked w = set fl" by blast
  show "current_attrs st (set fl) (FileList_list w)"
    unfolding current_attrs_def
  proof (intro ballI impI)
    fix f assume f: "f \<in> set (FileList_list w)" and p: "path f \<in> set fl"
    from f have "snapshot w (path f) = Some (attributes f)" by (auto simp: snapshot_Some_iff [OF d])
    with s p show "st (path f) = Some (attributes f)" by simp
  qed
qed

lemma compare_stable:
  assumes d: "distinct (map path (FileList_list w))" and t: "tracked w = set fl"
    and cur: "current_attrs st (set fl) (FileList_list w)"
  shows "FileList_compare st fl w = Inr w"
proof -
  from compare_files_stable [OF d _ cur] t have c: "compare_files st fl w = Inr w" by simp
  have "\<forall>f \<in> set (FileList_list w). path f \<in> set fl" using t by auto
  then have "sweep fl False (FileList_list w) = (FileList_list w, [])" by (rule sweep_all_listed)
  with c show ?thesis by (simp add: FileList_compare_unfold remove_loop_sweep)
qed

text \<open>
  C20: a list that already describes the folder is a fixed point of \<open>compare\<close>: with
  the same listing, every listed path stat-able with the same attributes, \<open>compare\<close>
  changes nothing and logs nothing.
  So once a pass has met the contract, further passes on an unchanged folder are silent.
\<close>

theorem FileList_compare_fixpoint:
  assumes d: "distinct (map path (FileList_list w))" and s: "snapshot w = st |` set fl"
    and ok: "\<forall>p \<in> set fl. st p \<noteq> None"
  shows "FileList_compare st fl w = Inr w"
proof -
  note t = snapshot_restrict_current [OF d s ok]
  from d t show ?thesis by (rule compare_stable)
qed

end
