(* ===== verification/Scanner.thy ===== *)
theory Scanner
  imports Prelude
begin

section \<open>The scanner: \<open>folder_analyze\<close>\<close>

text \<open>
  \<open>folder_analyze(local_folder, subfolders_max_number)\<close> (\<open>src/Watch.py\<close>, lines
  173--196) walks the folder with \<open>os.walk(local_folder, topdown=True)\<close>. For every
  directory it visits it appends the joined paths of its files whose name does not start
  with a dot, then the joined paths of all its subdirectories (hidden ones included), and
  then, if the directory's own path contains at least \<open>subfolders_max_number\<close>
  separators, empties \<open>dirs\<close> so that \<open>os.walk\<close> does not descend into it.

  The file system is a tree of \<open>node\<close>s, each directory's entries in the order
  \<open>os.scandir\<close> returns them. \<open>os.walk\<close> visits a directory, then (top-down) each
  subdirectory in that order; \<open>walk_node\<close> and \<open>walk_children\<close> follow that order by
  mutual primitive recursion over the tree. \<open>f[0]\<close> on an empty name raises
  \<open>IndexError\<close> (\<open>visible_files\<close>); the comparison \<open>f[0] is not "."\<close> is an identity
  test, which CPython answers like \<open>!=\<close> because one-character strings are cached.
  Symbolic links are not modelled.
\<close>

datatype node = FileNode string | DirNode string "node list"

text \<open>\<open>os.path.join(a, b)\<close> of \<open>posixpath\<close>, for two components.\<close>

definition path_join :: "string \<Rightarrow> string \<Rightarrow> string" where
  "path_join a b =
     (if take 1 b = ''/'' then b
      else if a = [] \<or> take 1 (rev a) = ''/'' then a @ b
      else a @ ''/'' @ b)"

text \<open>\<open>path.count(os.sep)\<close>.\<close>

definition count_sep :: "string \<Rightarrow> nat" where
  "count_sep p = count_list p (CHR ''/'')"

fun file_names :: "node list \<Rightarrow> string list" where
  "file_names [] = []"
| "file_names (FileNode n # cs) = n # file_names cs"
| "file_names (DirNode n ds # cs) = file_names cs"

fun dir_names :: "node list \<Rightarrow> string list" where
  "dir_names [] = []"
| "dir_names (FileNode n # cs) = dir_names cs"
| "dir_names (DirNode n ds # cs) = n # dir_names cs"

text \<open>\<open>[f for f in files if f[0] is not "."]\<close> (line 185).\<close>

fun visible_files :: "string list \<Rightarrow> py_error + string list" where
  "visible_files [] = Inr []"
| "visible_files (f # fs) =
     (case f of
        [] \<Rightarrow> Inl IndexError
      | c # _ \<Rightarrow>
          (case visible_files fs of
             Inl e \<Rightarrow> Inl e
           | Inr vs \<Rightarrow> Inr (if c \<noteq> CHR ''.'' then f # vs else vs)))"

text \<open>The body of the \<open>for\<close> loop for one directory (lines 185--192).\<close>

definition dir_listing :: "string \<Rightarrow> node list \<Rightarrow> py_error + string list" where
  "dir_listing p cs =
     (case visible_files (file_names cs) of
        Inl e \<Rightarrow> Inl e
      | Inr fs \<Rightarrow> Inr (map (path_join p) fs @ map (path_join p) (dir_names cs)))"

text \<open>
  One directory visited at path \<open>p\<close>: its listing, then, unless the depth cut of lines
  194--195 applies, the walk of its subdirectories (\<open>sub\<close>).
\<close>

definition visit_dir :: "int \<Rightarrow> string \<Rightarrow> node list \<Rightarrow> py_error + string list \<Rightarrow> py_error + string list" where
  "visit_dir m p cs sub =
     (case dir_listing p cs of
        Inl e \<Rightarrow> Inl e
      | Inr xs \<Rightarrow>
          (if int (count_sep p) \<ge> m then Inr xs
           else (case sub of Inl e \<Rightarrow> Inl e | Inr ys \<Rightarrow> Inr (xs @ ys))))"

primrec walk_node :: "int \<Rightarrow> string \<Rightarrow> node \<Rightarrow> py_error + string list"
  and walk_children :: "int \<Rightarrow> string \<Rightarrow> node list \<Rightarrow> py_error + string list" where
  "walk_node m p (FileNode n) = Inr []"
| "walk_node m p (DirNode n cs) =
     visit_dir m (path_join p n) cs (walk_children m (path_join p n) cs)"
| "walk_children m p [] = Inr []"
| "walk_children m p (c # cs) =
     (case walk_node m p c of
        Inl e \<Rightarrow> Inl e
      | Inr xs \<Rightarrow> (case walk_children m p cs of Inl e \<Rightarrow> Inl e | Inr ys \<Rightarrow> Inr (xs @ ys)))"

definition folder_analyze :: "string \<Rightarrow> node list \<Rightarrow> int \<Rightarrow> py_error + string list" where
  "folder_analyze local_folder entries subfolders_max_number =
     visit_dir subfolders_max_number local_folder entries
       (walk_children subfolders_max_number local_folder entries)"

lemmas scanner_eval [watch_simps] =
  folder_analyze_def visit_dir_def dir_listing_def path_join_def count_sep_def

subsection \<open>Well-formed trees\<close>

text \<open>
  A POSIX directory entry has a non-empty name without a separator. A path that is not
  empty and does not end with the separator gains exactly one separator per component
  joined to it.
\<close>

definition name_ok :: "string \<Rightarrow> bool" where
  "name_ok n \<longleftrightarrow> n \<noteq> [] \<and> CHR ''/'' \<notin> set n"

fun node_name :: "node \<Rightarrow> string" where
  "node_name (FileNode n) = n"
| "node_name (DirNode n cs) = n"

text \<open>No two entries of a directory share a name.\<close>

definition wf_entries :: "node list \<Rightarrow> bool" where
  "wf_entries cs \<longleftrightarrow> distinct (map node_name cs)"

fun wf_node :: "node \<Rightarrow> bool" where
  "wf_node (FileNode n) = name_ok n"
| "wf_node (DirNode n cs) = (name_ok n \<and> wf_entries cs \<and> (\<forall>c \<in> set cs. wf_node c))"

definition open_path :: "string \<Rightarrow> bool" where
  "open_path p \<longleftrightarrow> p \<noteq> [] \<and> take 1 (rev p) \<noteq> ''/''"

lemma path_join_open:
  assumes "open_path p" "name_ok n"
  shows "path_join p n = p @ ''/'' @ n"
proof -
  from assms(2) have "take 1 n \<noteq> ''/''" by (cases n) (auto simp: name_ok_def)
  with assms(1) show ?thesis by (simp add: path_join_def open_path_def)
qed

lemma count_sep_join [simp]:
  "open_path p \<Longrightarrow> name_ok n \<Longrightarrow> count_sep (path_join p n) = Suc (count_sep p)"
  by (simp add: path_join_open count_sep_def name_ok_def count_list_0_iff)

lemma open_path_join [simp]: "open_path p \<Longrightarrow> name_ok n \<Longrightarrow> open_path (path_join p n)"
  by (cases n rule: rev_cases) (auto simp: path_join_open open_path_def name_ok_def)

lemma file_names_ok: "\<forall>c \<in> set cs. wf_node c \<Longrightarrow> \<forall>n \<in> set (file_names cs). name_ok n"
  by (induction cs rule: file_names.induct) auto

lemma dir_names_ok: "\<forall>c \<in> set cs. wf_node c \<Longrightarrow> \<forall>n \<in> set (dir_names cs). name_ok n"
  by (induction cs rule: dir_names.induct) auto

subsection \<open>The listing of one directory\<close>

lemma visible_files_ok:
  "\<forall>f \<in> set fs. f \<noteq> [] \<Longrightarrow> visible_files fs = Inr (filter (\<lambda>f. hd f \<noteq> CHR ''.'') fs)"
proof (induction fs)
  case Nil
  then show ?case by simp
next
  case (Cons f fs)
  then obtain c r where "f = c # r" by (cases f) auto
  with Cons show ?case by simp
qed

lemma visible_files_Inl: "visible_files fs = Inl e \<Longrightarrow> e = IndexError \<and> [] \<in> set fs"
proof (induction fs)
  case Nil
  then show ?case by simp
next
  case (Cons f fs)
  then show ?case by (cases f) (auto split: sum.splits)
qed

lemma dir_listing_ok:
  assumes "\<forall>c \<in> set cs. wf_node c"
  shows "dir_listing p cs =
           Inr (map (path_join p) (filter (\<lambda>f. hd f \<noteq> CHR ''.'') (file_names cs))
                @ map (path_join p) (dir_names cs))"
proof -
  have "\<forall>f \<in> set (file_names cs). f \<noteq> []"
    using file_names_ok [OF assms] by (auto simp: name_ok_def)
  then show ?thesis by (simp add: dir_listing_def visible_files_ok)
qed

lemma dir_listing_Inl: "dir_listing p cs = Inl e \<Longrightarrow> e = IndexError \<and> [] \<in> set (file_names cs)"
  by (auto simp: dir_listing_def split: sum.splits dest: visible_files_Inl)

lemma dir_listing_count:
  assumes "\<forall>c \<in> set cs. wf_node c" "open_path p" "dir_listing p cs = Inr xs"
  shows "\<forall>x \<in> set xs. count_sep x = Suc (count_sep p)"
  using assms file_names_ok [OF assms(1)] dir_names_ok [OF assms(1)]
  by (auto simp: dir_listing_ok)

subsection \<open>The walk\<close>

lemma walk_children_Inr:
  "walk_children m p (c # cs) = Inr ys \<longleftrightarrow>
     (\<exists>xs zs. walk_node m p c = Inr xs \<and> walk_children m p cs = Inr zs \<and> ys = xs @ zs)"
  by (auto split: sum.splits)

lemma walk_children_all:
  assumes "walk_children m p cs = Inr ys"
    and "\<And>c ys'. c \<in> set cs \<Longrightarrow> walk_node m p c = Inr ys' \<Longrightarrow> \<forall>x \<in> set ys'. P x"
  shows "\<forall>x \<in> set ys. P x"
  using assms
proof (induction cs arbitrary: ys)
  case Nil
  then show ?case by simp
next
  case (Cons c cs)
  from Cons.prems(1) obtain xs zs where "walk_node m p c = Inr xs"
    "walk_children m p cs = Inr zs" "ys = xs @ zs"
    by (auto simp only: walk_children_Inr)
  moreover have "\<forall>x \<in> set zs. P x"
  proof (rule Cons.IH [OF \<open>walk_children m p cs = Inr zs\<close>])
    fix c' ys' assume "c' \<in> set cs" "walk_node m p c' = Inr ys'"
    then show "\<forall>x \<in> set ys'. P x" using Cons.prems(2) [of c' ys'] by simp
  qed
  ultimately show ?case using Cons.prems(2) [of c xs] by auto
qed

lemma walk_children_ok:
  "(\<And>c. c \<in> set cs \<Longrightarrow> \<exists>ys. walk_node m p c = Inr ys) \<Longrightarrow> \<exists>ys. walk_children m p cs = Inr ys"
proof (induction cs)
  case Nil
  then show ?case by simp
next
  case (Cons c cs)
  then obtain xs zs where "walk_node m p c = Inr xs" "walk_children m p cs = Inr zs"
    by (metis list.set_intros)
  then show ?case by simp
qed

lemma visit_dir_cases:
  "visit_dir m p cs sub = Inr ys \<Longrightarrow>
     \<exists>xs. dir_listing p cs = Inr xs \<and>
          (if int (count_sep p) \<ge> m then ys = xs else \<exists>zs. sub = Inr zs \<and> ys = xs @ zs)"
  by (auto simp: visit_dir_def split: sum.splits if_splits)

lemma walk_node_ok: "wf_node c \<Longrightarrow> \<exists>ys. walk_node m p c = Inr ys"
proof (induction c arbitrary: p)
  case (FileNode n)
  then show ?case by simp
next
  case (DirNode n cs)
  then have cs: "\<forall>c \<in> set cs. wf_node c" by simp
  obtain zs where "walk_children m (path_join p n) cs = Inr zs"
    using walk_children_ok [of cs m "path_join p n"] DirNode.IH cs by blast
  then show ?case by (simp add: visit_dir_def dir_listing_ok [OF cs])
qed

lemma walk_node_bound:
  "wf_node c \<Longrightarrow> open_path p \<Longrightarrow> int (count_sep p) < m \<Longrightarrow> walk_node m p c = Inr ys \<Longrightarrow>
     \<forall>x \<in> set ys. count_sep x \<le> Suc (nat m)"
proof (induction c arbitrary: p ys)
  case (FileNode n)
  then show ?case by simp
next
  case (DirNode n cs)
  let ?q = "path_join p n"
  from DirNode.prems have cs: "\<forall>c \<in> set cs. wf_node c" and q: "open_path ?q"
    and cq: "count_sep ?q = Suc (count_sep p)" by auto
  from DirNode.prems(4) obtain xs where xs: "dir_listing ?q cs = Inr xs"
    and ys: "if int (count_sep ?q) \<ge> m then ys = xs
             else \<exists>zs. walk_children m ?q cs = Inr zs \<and> ys = xs @ zs"
    using visit_dir_cases by fastforce
  have "\<forall>x \<in> set xs. count_sep x \<le> Suc (nat m)"
    using dir_listing_count [OF cs q xs] cq DirNode.prems(3) by auto
  moreover have "\<forall>x \<in> set zs. count_sep x \<le> Suc (nat m)"
    if "walk_children m ?q cs = Inr zs" "int (count_sep ?q) < m" for zs
    using that(1)
  proof (rule walk_children_all)
    fix c ys' assume "c \<in> set cs" "walk_node m ?q c = Inr ys'"
    with cs q that(2) show "\<forall>x \<in> set ys'. count_sep x \<le> Suc (nat m)"
      by (intro DirNode.IH) auto
  qed
  ultimately show ?case using ys by (auto split: if_splits)
qed

subsection \<open>Properties of \<open>folder_analyze\<close>\<close>

text \<open>
  C9: on a well-formed tree, every path \<open>folder_analyze\<close> returns has at most one
  separator more than the larger of the depth limit and the separator count of the
  watched folder itself: the limit counts separators of the absolute path.
\<close>

theorem folder_analyze_depth_bound:
  assumes "\<forall>c \<in> set cs. wf_node c" and "open_path root"
    and "folder_analyze root cs m = Inr ys"
  shows "\<forall>x \<in> set ys. count_sep x \<le> Suc (max (nat m) (count_sep root))"
proof -
  from assms(3) obtain xs where xs: "dir_listing root cs = Inr xs"
    and ys: "if int (count_sep root) \<ge> m then ys = xs
             else \<exists>zs. walk_children m root cs = Inr zs \<and> ys = xs @ zs"
    unfolding folder_analyze_def using visit_dir_cases by fastforce
  have "\<forall>x \<in> set xs. count_sep x \<le> Suc (max (nat m) (count_sep root))"
    using dir_listing_count [OF assms(1,2) xs] by simp
  moreover have "\<forall>x \<in> set zs. count_sep x \<le> Suc (max (nat m) (count_sep root))"
    if "walk_children m root cs = Inr zs" "int (count_sep root) < m" for zs
  proof -
    have "\<forall>x \<in> set zs. count_sep x \<le> Suc (nat m)"
      using that(1)
    proof (rule walk_children_all)
      fix c ys' assume "c \<in> set cs" "walk_node m root c = Inr ys'"
      with assms(1,2) that(2) show "\<forall>x \<in> set ys'. count_sep x \<le> Suc (nat m)"
        by (intro walk_node_bound) auto
    qed
    then show ?thesis by fastforce
  qed
  ultimately show ?thesis using ys by (auto split: if_splits)
qed

text \<open>
  On a well-formed tree (no empty names) \<open>folder_analyze\<close> does not raise: it
  returns a list.
\<close>

lemma folder_analyze_returns:
  assumes "\<forall>c \<in> set cs. wf_node c"
  shows "\<exists>ys. folder_analyze root cs m = Inr ys"
proof -
  obtain zs where "walk_children m root cs = Inr zs"
    using walk_children_ok [of cs m root] walk_node_ok assms by blast
  then show ?thesis by (simp add: folder_analyze_def visit_dir_def dir_listing_ok [OF assms])
qed

text \<open>
  When the watched folder's own path already has \<open>subfolders_max_number\<close>
  separators or more, \<open>folder_analyze\<close> lists only the folder's direct entries and
  never descends, whatever the depth asked for.
\<close>

lemma folder_analyze_no_descent:
  assumes "m \<le> int (count_sep root)"
  shows "folder_analyze root cs m = dir_listing root cs"
  using assms by (simp add: folder_analyze_def visit_dir_def split: sum.split)

text \<open>
  C10: the result starts with the watched folder's own entries: its files whose name does
  not start with a dot, in \<open>scandir\<close> order, then all its subdirectories, hidden ones
  included.
\<close>

theorem folder_analyze_top_listing:
  assumes "\<forall>c \<in> set cs. wf_node c"
  shows "\<exists>zs. folder_analyze root cs m =
           Inr (map (path_join root) (filter (\<lambda>f. hd f \<noteq> CHR ''.'') (file_names cs))
                @ map (path_join root) (dir_names cs) @ zs)"
proof -
  obtain zs where "walk_children m root cs = Inr zs"
    using walk_children_ok [of cs m root] walk_node_ok assms by blast
  then show ?thesis by (simp add: folder_analyze_def visit_dir_def dir_listing_ok [OF assms])
qed

subsection \<open>The walk lists no path twice\<close>

lemma sep_prefix_eq:
  assumes "CHR ''/'' \<notin> set a" "CHR ''/'' \<notin> set b" "a @ CHR ''/'' # r = b @ CHR ''/'' # s"
  shows "a = b"
  using assms
proof (induction a arbitrary: b)
  case Nil
  then show ?case by (cases b) auto
next
  case (Cons x a)
  then show ?case by (cases b) auto
qed

lemma names_split:
  "wf_entries cs \<Longrightarrow>
     distinct (file_names cs) \<and> distinct (dir_names cs) \<and> set (file_names cs) \<inter> set (dir_names cs) = {}
     \<and> set (file_names cs) \<subseteq> set (map node_name cs) \<and> set (dir_names cs) \<subseteq> set (map node_name cs)"
  by (induction cs rule: file_names.induct) (auto simp: wf_entries_def)

lemma dir_listing_form:
  assumes "\<forall>c \<in> set cs. wf_node c" "open_path q" "dir_listing q cs = Inr xs"
  shows "\<forall>x \<in> set xs. \<exists>k. name_ok k \<and> x = q @ ''/'' @ k"
  using assms file_names_ok [OF assms(1)] dir_names_ok [OF assms(1)]
  by (auto simp: dir_listing_ok path_join_open)

lemma dir_listing_distinct:
  assumes "\<forall>c \<in> set cs. wf_node c" "wf_entries cs" "open_path q" "dir_listing q cs = Inr xs"
  shows "distinct xs"
proof -
  have inj: "inj_on (path_join q) {k. name_ok k}"
    using assms(3) by (auto simp: inj_on_def path_join_open)
  have ok: "set (filter (\<lambda>f. hd f \<noteq> CHR ''.'') (file_names cs) @ dir_names cs) \<subseteq> {k. name_ok k}"
    using file_names_ok [OF assms(1)] dir_names_ok [OF assms(1)] by auto
  let ?ns = "filter (\<lambda>f. hd f \<noteq> CHR ''.'') (file_names cs) @ dir_names cs"
  have d: "distinct ?ns"
    using names_split [OF assms(2)] by auto
  have i: "inj_on (path_join q) (set ?ns)"
    using inj ok by (rule inj_on_subset)
  have "distinct (map (path_join q) ?ns)"
    unfolding distinct_map using d i by blast
  moreover have "xs = map (path_join q) ?ns"
    using assms(4) by (simp add: dir_listing_ok [OF assms(1)])
  ultimately show ?thesis by simp
qed

lemma walk_node_form:
  "wf_node c \<Longrightarrow> open_path q \<Longrightarrow> walk_node m q c = Inr ys \<Longrightarrow>
     \<forall>y \<in> set ys. \<exists>r. y = q @ ''/'' @ node_name c @ ''/'' @ r"
proof (induction c arbitrary: q ys)
  case (FileNode n)
  then show ?case by simp
next
  case (DirNode n cs)
  let ?q = "path_join q n"
  from DirNode.prems have cs: "\<forall>c \<in> set cs. wf_node c" and q': "open_path ?q" by auto
  from DirNode.prems have qn: "?q = q @ ''/'' @ n" by (simp add: path_join_open)
  from DirNode.prems(3) obtain xs where xs: "dir_listing ?q cs = Inr xs"
    and ys: "if int (count_sep ?q) \<ge> m then ys = xs
             else \<exists>zs. walk_children m ?q cs = Inr zs \<and> ys = xs @ zs"
    using visit_dir_cases by fastforce
  have "\<forall>x \<in> set xs. \<exists>r. x = q @ ''/'' @ n @ ''/'' @ r"
    using dir_listing_form [OF cs q' xs] qn by auto
  moreover have "\<forall>x \<in> set zs. \<exists>r. x = q @ ''/'' @ n @ ''/'' @ r"
    if "walk_children m ?q cs = Inr zs" for zs
    using that
  proof (rule walk_children_all)
    fix c ys' assume "c \<in> set cs" "walk_node m ?q c = Inr ys'"
    with cs q' have "\<forall>y \<in> set ys'. \<exists>r. y = ?q @ ''/'' @ node_name c @ ''/'' @ r"
      by (intro DirNode.IH) auto
    with qn show "\<forall>y \<in> set ys'. \<exists>r. y = q @ ''/'' @ n @ ''/'' @ r" by auto
  qed
  ultimately show ?case using ys by (auto split: if_splits)
qed

lemma count_sep_deeper:
  assumes "CHR ''/'' \<notin> set d"
  shows "count_sep (q @ ''/'' @ d @ ''/'' @ r) \<ge> Suc (Suc (count_sep q))"
  using assms by (simp add: count_sep_def count_list_0_iff)

lemma wf_node_name: "wf_node c \<Longrightarrow> name_ok (node_name c)"
  by (cases c) auto

lemma walk_children_form:
  assumes "walk_children m q cs = Inr zs" "\<forall>c \<in> set cs. wf_node c" "open_path q"
  shows "\<forall>y \<in> set zs. \<exists>c \<in> set cs. \<exists>r. y = q @ ''/'' @ node_name c @ ''/'' @ r"
  using assms(1)
proof (rule walk_children_all)
  fix c ys assume c: "c \<in> set cs" and w: "walk_node m q c = Inr ys"
  from c assms(2) have "wf_node c" by blast
  from walk_node_form [OF this assms(3) w] c
  show "\<forall>y \<in> set ys. \<exists>c \<in> set cs. \<exists>r. y = q @ ''/'' @ node_name c @ ''/'' @ r" by blast
qed

lemma walk_children_distinct:
  assumes "walk_children m q cs = Inr zs" "\<forall>c \<in> set cs. wf_node c" "wf_entries cs" "open_path q"
    and node: "\<And>c ys. c \<in> set cs \<Longrightarrow> walk_node m q c = Inr ys \<Longrightarrow> distinct ys"
  shows "distinct zs"
  using assms
proof (induction cs arbitrary: zs)
  case Nil
  then show ?case by simp
next
  case (Cons c cs)
  from Cons.prems(1) obtain xs zs' where xs: "walk_node m q c = Inr xs"
    and zs': "walk_children m q cs = Inr zs'" and zs: "zs = xs @ zs'"
    by (auto simp only: walk_children_Inr)
  have wfc: "wf_node c" and wfs: "\<forall>c \<in> set cs. wf_node c" using Cons.prems(2) by auto
  have ent: "wf_entries cs" and fresh: "node_name c \<notin> node_name ` set cs"
    using Cons.prems(3) by (simp_all add: wf_entries_def)
  have "distinct xs" using Cons.prems(5) [of c xs] xs by simp
  moreover have "distinct zs'"
  proof (rule Cons.IH [OF zs' wfs ent Cons.prems(4)])
    fix c' ys assume "c' \<in> set cs" "walk_node m q c' = Inr ys"
    then show "distinct ys" using Cons.prems(5) [of c' ys] by simp
  qed
  moreover have "set xs \<inter> set zs' = {}"
  proof (rule ccontr)
    assume "set xs \<inter> set zs' \<noteq> {}"
    then obtain y where y: "y \<in> set xs" "y \<in> set zs'" by blast
    from walk_node_form [OF wfc Cons.prems(4) xs] y(1) obtain r
      where r: "y = q @ ''/'' @ node_name c @ ''/'' @ r" by blast
    from walk_children_form [OF zs' wfs Cons.prems(4)] y(2) obtain c' r'
      where c': "c' \<in> set cs" and r': "y = q @ ''/'' @ node_name c' @ ''/'' @ r'" by blast
    from r r' have eq: "node_name c @ CHR ''/'' # r = node_name c' @ CHR ''/'' # r'" by simp
    have n1: "CHR ''/'' \<notin> set (node_name c)"
      using wf_node_name [OF wfc] by (simp add: name_ok_def)
    have "wf_node c'" using wfs c' by blast
    then have n2: "CHR ''/'' \<notin> set (node_name c')"
      using wf_node_name by (simp add: name_ok_def)
    have "node_name c = node_name c'" by (rule sep_prefix_eq [OF n1 n2 eq])
    with fresh c' show False by auto
  qed
  ultimately show ?case using zs by simp
qed

lemma visit_dir_distinct:
  assumes "\<forall>c \<in> set cs. wf_node c" "wf_entries cs" "open_path q"
    and "visit_dir m q cs (walk_children m q cs) = Inr ys"
    and node: "\<And>c ys. c \<in> set cs \<Longrightarrow> walk_node m q c = Inr ys \<Longrightarrow> distinct ys"
  shows "distinct ys"
proof -
  from assms(4) obtain xs where xs: "dir_listing q cs = Inr xs"
    and ys: "if int (count_sep q) \<ge> m then ys = xs
             else \<exists>zs. walk_children m q cs = Inr zs \<and> ys = xs @ zs"
    using visit_dir_cases by fastforce
  have dxs: "distinct xs" by (rule dir_listing_distinct [OF assms(1-3) xs])
  have "distinct (xs @ zs)" if zs: "walk_children m q cs = Inr zs" for zs
  proof -
    have "distinct zs"
    proof (rule walk_children_distinct [OF zs assms(1-3)])
      fix c ys' assume "c \<in> set cs" "walk_node m q c = Inr ys'"
      then show "distinct ys'" by (rule node)
    qed
    moreover have "set xs \<inter> set zs = {}"
    proof (rule ccontr)
      assume "set xs \<inter> set zs \<noteq> {}"
      then obtain y where y: "y \<in> set xs" "y \<in> set zs" by blast
      have "count_sep y = Suc (count_sep q)" using dir_listing_count [OF assms(1,3) xs] y(1) by blast
      moreover from walk_children_form [OF zs assms(1,3)] y(2) obtain c r
        where "c \<in> set cs" "y = q @ ''/'' @ node_name c @ ''/'' @ r" by blast
      then have "count_sep y \<ge> Suc (Suc (count_sep q))"
        using wf_node_name assms(1) count_sep_deeper by (auto simp: name_ok_def)
      ultimately show False by simp
    qed
    ultimately show ?thesis using dxs by simp
  qed
  with dxs ys show ?thesis by (auto split: if_splits)
qed

lemma walk_node_distinct:
  "wf_node c \<Longrightarrow> open_path q \<Longrightarrow> walk_node m q c = Inr ys \<Longrightarrow> distinct ys"
proof (induction c arbitrary: q ys)
  case (FileNode n)
  then show ?case by simp
next
  case (DirNode n cs)
  from DirNode.prems have cs: "\<forall>c \<in> set cs. wf_node c" "wf_entries cs"
    and q': "open_path (path_join q n)" by auto
  from DirNode.prems(3) have "visit_dir m (path_join q n) cs (walk_children m (path_join q n) cs) = Inr ys"
    by simp
  then show ?case
  proof (rule visit_dir_distinct [OF cs q'])
    fix c ys' assume c: "c \<in> set cs" and w: "walk_node m (path_join q n) c = Inr ys'"
    from c cs(1) have "wf_node c" by blast
    from DirNode.IH [OF c this q' w] show "distinct ys'" .
  qed
qed

text \<open>On a well-formed tree the scan never lists a path twice.\<close>

lemma folder_analyze_distinct:
  assumes "\<forall>c \<in> set cs. wf_node c" "wf_entries cs" "open_path root"
    and "folder_analyze root cs m = Inr ys"
  shows "distinct ys"
  using assms(4) unfolding folder_analyze_def
proof (rule visit_dir_distinct [OF assms(1-3)])
  fix c ys' assume c: "c \<in> set cs" and w: "walk_node m root c = Inr ys'"
  from c assms(1) have "wf_node c" by blast
  from walk_node_distinct [OF this assms(3) w] show "distinct ys'" .
qed


text \<open>
  C19: every path in the listing lies inside the watched folder: it is the folder's
  path, a separator and a name without separator, possibly followed by more components.
\<close>

theorem folder_analyze_inside:
  assumes "\<forall>c \<in> set cs. wf_node c" and "open_path root"
    and "folder_analyze root cs m = Inr ys"
  shows "\<forall>y \<in> set ys. \<exists>k r. name_ok k \<and> (y = root @ ''/'' @ k \<or> y = root @ ''/'' @ k @ ''/'' @ r)"
proof -
  from assms(3) obtain xs where xs: "dir_listing root cs = Inr xs"
    and ys: "if int (count_sep root) \<ge> m then ys = xs
             else \<exists>zs. walk_children m root cs = Inr zs \<and> ys = xs @ zs"
    unfolding folder_analyze_def by (blast dest: visit_dir_cases)
  have top: "\<forall>x \<in> set xs. \<exists>k r. name_ok k \<and> (x = root @ ''/'' @ k \<or> x = root @ ''/'' @ k @ ''/'' @ r)"
    using dir_listing_form [OF assms(1,2) xs] by blast
  have deep: "\<forall>z \<in> set zs. \<exists>k r. name_ok k \<and> (z = root @ ''/'' @ k \<or> z = root @ ''/'' @ k @ ''/'' @ r)"
    if "walk_children m root cs = Inr zs" for zs
  proof
    fix z assume "z \<in> set zs"
    with walk_children_form [OF that assms(1,2)] obtain c r where
      "c \<in> set cs" "z = root @ ''/'' @ node_name c @ ''/'' @ r" by blast
    with assms(1) wf_node_name show "\<exists>k r. name_ok k \<and> (z = root @ ''/'' @ k \<or> z = root @ ''/'' @ k @ ''/'' @ r)"
      by blast
  qed
  from ys top deep show ?thesis by (auto split: if_splits)
qed

end
