(* ===== verification/Watcher.thy ===== *)
theory Watcher
  imports Snapshot Scanner
begin

section \<open>The driver: prompts, argument checks and the watch loop\<close>

text \<open>
  \<open>ask_folder_location\<close> and \<open>ask_log_file_location\<close> (\<open>src/Watch.py\<close>, lines
  147--170) read lines from standard input until one names an existing path;
  \<open>input()\<close> raises \<open>EOFError\<close> at the end of the input. Standard input is a list of
  lines, shared by both prompts; each returns the path and the lines it left unread.
  \<open>main_function\<close> (lines 199--238) checks the log file and the folder, asking again
  when they do not exist, clamps \<open>depth\<close> to \<open>range(0, 11)\<close> and \<open>frequency\<close>
  to \<open>range(1, 3601)\<close> (5 and 15 otherwise), crawls once with \<open>add_list(..., True)\<close>,
  and then runs \<open>compare\<close> on a fresh listing forever. The existence test
  \<open>os.path.exists\<close> and the success of \<open>open(..., 'a')\<close> are predicates on paths.
\<close>

subsection \<open>Prompts\<close>

text \<open>The \<open>while not os.path.exists(...)\<close> loop, from the line last read.\<close>

fun ask_retry :: "(string \<Rightarrow> bool) \<Rightarrow> string \<Rightarrow> string list \<Rightarrow> py_error + (string \<times> string list)" where
  "ask_retry exists cur [] = (if exists cur then Inr (cur, []) else Inl EOFError)"
| "ask_retry exists cur (x # xs) = (if exists cur then Inr (cur, x # xs) else ask_retry exists x xs)"

definition ask_folder_location :: "(string \<Rightarrow> bool) \<Rightarrow> string list \<Rightarrow> py_error + (string \<times> string list)" where
  "ask_folder_location exists stdin =
     (case stdin of [] \<Rightarrow> Inl EOFError | x # xs \<Rightarrow> ask_retry exists x xs)"

definition ask_log_file_location :: "(string \<Rightarrow> bool) \<Rightarrow> string list \<Rightarrow> py_error + (string \<times> string list)" where
  "ask_log_file_location exists stdin =
     (case stdin of [] \<Rightarrow> Inl EOFError | x # xs \<Rightarrow> ask_retry exists x xs)"

subsection \<open>Arguments\<close>

record args =
  folder_location :: string
  log_file_location :: string
  new_log_file :: bool
  args_debug :: bool
  depth :: int
  frequency :: int

text \<open>Lines 230--231: \<open>x not in range(a, b)\<close> for an int \<open>x\<close> is \<open>\<not> (a \<le> x < b)\<close>.\<close>

definition clamp_depth :: "int \<Rightarrow> int" where
  "clamp_depth d = (if \<not> (0 \<le> d \<and> d < 11) then 5 else d)"

definition clamp_frequency :: "int \<Rightarrow> int" where
  "clamp_frequency f = (if \<not> (1 \<le> f \<and> f < 3601) then 15 else f)"

text \<open>
  Lines 216--231, with the two file-system predicates: \<open>exists\<close> for
  \<open>os.path.exists\<close>, \<open>can_create\<close> for \<open>open(path, 'a')\<close> not raising \<open>IOError\<close>.
\<close>

definition setup_args :: "(string \<Rightarrow> bool) \<Rightarrow> (string \<Rightarrow> bool) \<Rightarrow> args \<Rightarrow> string list \<Rightarrow>
    py_error + (args \<times> string list)" where
  "setup_args exists can_create a stdin =
     (case (if new_log_file a then
              (if can_create (log_file_location a) then Inr (a, stdin)
               else map_sum id (\<lambda>(l, rest). (a\<lparr>log_file_location := l\<rparr>, rest))
                      (ask_log_file_location exists stdin))
            else if \<not> exists (log_file_location a) then
              map_sum id (\<lambda>(l, rest). (a\<lparr>log_file_location := l\<rparr>, rest))
                (ask_log_file_location exists stdin)
            else Inr (a, stdin)) of
        Inl e \<Rightarrow> Inl e
      | Inr (a1, in1) \<Rightarrow>
          (case (if \<not> exists (folder_location a1) then
                   map_sum id (\<lambda>(f, rest). (a1\<lparr>folder_location := f\<rparr>, rest))
                     (ask_folder_location exists in1)
                 else Inr (a1, in1)) of
             Inl e \<Rightarrow> Inl e
           | Inr (a2, in2) \<Rightarrow>
               Inr (a2\<lparr>depth := clamp_depth (depth a2), frequency := clamp_frequency (frequency a2)\<rparr>, in2)))"

subsection \<open>The watch loop\<close>

text \<open>
  After the arguments are set up, \<open>main_function\<close> (lines 234--238) is in one of two
  states: in its \<open>while True\<close> loop with the class attribute \<open>FileList.list\<close> and
  the log so far, or left by an exception, which nothing catches and which ends
  the program. Each call of \<open>folder_analyze\<close> sees the folder as it is at that
  moment: a tree \<open>cs\<close> of entries and a stat function \<open>st\<close>, both free to change
  from one cycle to the next. \<open>time.sleep\<close> has no effect on the state.
\<close>

datatype 'a watch_state = Watching "'a world" | Stopped py_error "'a world"

definition state_of :: "'a world result \<Rightarrow> 'a watch_state" where
  "state_of r = (case r of Inl (e, w) \<Rightarrow> Stopped e w | Inr w \<Rightarrow> Watching w)"

fun world_of_state :: "'a watch_state \<Rightarrow> 'a world" where
  "world_of_state (Watching w) = w"
| "world_of_state (Stopped e w) = w"

text \<open>Line 37: the class attribute \<open>list\<close> starts empty, and nothing is logged yet.\<close>

definition start_world :: "'a world" where
  "start_world = \<lparr>FileList_list = [], logged = []\<rparr>"

text \<open>Line 236: \<open>files.add_list(folder_analyze(args.folder_location, args.depth), True)\<close>.\<close>

definition initial_crawl :: "args \<Rightarrow> node list \<Rightarrow> 'a stat_fn \<Rightarrow> 'a world \<Rightarrow> 'a world result" where
  "initial_crawl a cs st w =
     (case folder_analyze (folder_location a) cs (depth a) of
        Inl e \<Rightarrow> Inl (e, w)
      | Inr fl \<Rightarrow> FileList_add_list st fl True w)"

text \<open>Lines 237--238: one pass of the loop, \<open>files.compare(folder_analyze(...))\<close>.\<close>

definition watch_cycle :: "args \<Rightarrow> node list \<Rightarrow> 'a stat_fn \<Rightarrow> 'a world \<Rightarrow> 'a world result" where
  "watch_cycle a cs st w =
     (case folder_analyze (folder_location a) cs (depth a) of
        Inl e \<Rightarrow> Inl (e, w)
      | Inr fl \<Rightarrow> FileList_compare st fl w)"

text \<open>
  A run of the loop through a sequence of folder states, one per pass: the
  interleaving of the program with the changes made to the folder around it.
  The first exception ends the run.
\<close>

fun watch_run :: "args \<Rightarrow> (node list \<times> 'a stat_fn) list \<Rightarrow> 'a world \<Rightarrow> 'a world result" where
  "watch_run a [] w = Inr w"
| "watch_run a ((cs, st) # envs) w = then_r (watch_cycle a cs st w) (watch_run a envs)"

text \<open>A folder as \<open>os.walk\<close> can see it: names without a separator, unique in each directory.\<close>

definition wf_tree :: "node list \<Rightarrow> bool" where
  "wf_tree cs \<longleftrightarrow> wf_entries cs \<and> (\<forall>c \<in> set cs. wf_node c)"

text \<open>The states the program can reach, whatever the folder does between passes.\<close>

inductive watch_reach :: "args \<Rightarrow> 'a watch_state \<Rightarrow> bool" for a :: args where
  start: "wf_tree cs \<Longrightarrow> watch_reach a (state_of (initial_crawl a cs st start_world))"
| cycle: "watch_reach a (Watching w) \<Longrightarrow> wf_tree cs \<Longrightarrow> watch_reach a (state_of (watch_cycle a cs st w))"

text \<open>
  \<open>main_function\<close> after \<open>argparse\<close> (lines 215--238): the set-up of the log file and
  the folder, then \<open>FileList(args.debug, args.log_file_location)\<close>, the first crawl
  on the folder state \<open>env0\<close> and the passes of the loop on \<open>envs\<close>. The outcome
  is the exception of the set-up, or the arguments in use, the \<open>FileList\<close> instance
  and the state of the loop after these passes.
\<close>

datatype 'a main_outcome = SetupFailed py_error | Running args FileList "'a watch_state"

definition main_function :: "(string \<Rightarrow> bool) \<Rightarrow> (string \<Rightarrow> bool) \<Rightarrow> args \<Rightarrow> string list \<Rightarrow>
    node list \<times> 'a stat_fn \<Rightarrow> (node list \<times> 'a stat_fn) list \<Rightarrow> 'a main_outcome" where
  "main_function exists can_create a stdin env0 envs =
     (case setup_args exists can_create a stdin of
        Inl e \<Rightarrow> SetupFailed e
      | Inr (a', rest) \<Rightarrow>
          Running a' (FileList_init (args_debug a') (log_file_location a'))
            (state_of (then_r (initial_crawl a' (fst env0) (snd env0) start_world) (watch_run a' envs))))"

lemmas watcher_eval [watch_simps] = state_of_def start_world_def initial_crawl_def watch_cycle_def wf_tree_def

subsection \<open>Lemmas on the prompts and the arguments\<close>

lemma ask_retry_find:
  "ask_retry exists cur xs = Inr (p, rest) \<longleftrightarrow>
     (\<exists>pre. cur # xs = pre @ p # rest \<and> exists p \<and> (\<forall>y \<in> set pre. \<not> exists y))"
proof (induction xs arbitrary: cur)
  case Nil
  then show ?case by (auto simp: Cons_eq_append_conv)
next
  case (Cons x xs)
  show ?case
  proof (cases "exists cur")
    case True
    then show ?thesis by (auto simp: Cons_eq_append_conv)
  next
    case False
    with Cons.IH [of x] show ?thesis by (auto simp: Cons_eq_append_conv)
  qed
qed

lemma ask_retry_EOF: "ask_retry exists cur xs = Inl e \<longleftrightarrow> e = EOFError \<and> (\<forall>y \<in> set (cur # xs). \<not> exists y)"
  by (induction xs arbitrary: cur) auto

lemma clamp_depth_range: "0 \<le> clamp_depth d \<and> clamp_depth d \<le> 10"
  by (simp add: clamp_depth_def)

lemma clamp_frequency_range: "1 \<le> clamp_frequency f \<and> clamp_frequency f \<le> 3600"
  by (simp add: clamp_frequency_def)


lemma map_sum_id_Inr_iff: "map_sum id f r = Inr y \<longleftrightarrow> (\<exists>x. r = Inr x \<and> f x = y)"
  by (cases r) auto

lemma map_sum_id_Inl_iff: "map_sum id f r = Inl e \<longleftrightarrow> r = Inl e"
  by (cases r) auto

lemma ask_retry_exists: "ask_retry exists cur xs = Inr (p, rest) \<Longrightarrow> exists p"
  by (induction xs arbitrary: cur) (auto split: if_splits)

lemma ask_folder_location_exists: "ask_folder_location exists stdin = Inr (p, rest) \<Longrightarrow> exists p"
  by (cases stdin) (auto simp: ask_folder_location_def dest: ask_retry_exists)

lemma ask_log_file_location_eq: "ask_log_file_location = ask_folder_location"
  by (simp add: fun_eq_iff ask_log_file_location_def ask_folder_location_def)

lemmas setup_args_unfold =
  setup_args_def ask_log_file_location_eq map_sum_id_Inr_iff map_sum_id_Inl_iff

lemma ask_folder_location_Inl: "ask_folder_location exists stdin = Inl e \<Longrightarrow> e = EOFError"
  by (cases stdin) (auto simp: ask_folder_location_def ask_retry_EOF)

text \<open>
  C11: \<open>ask_folder_location\<close> returns the first line of the input that names an existing
  path, and leaves the lines after it unread.
\<close>

theorem ask_folder_location_first:
  "ask_folder_location exists stdin = Inr (p, rest) \<longleftrightarrow>
     (\<exists>pre. stdin = pre @ p # rest \<and> exists p \<and> (\<forall>y \<in> set pre. \<not> exists y))"
proof (cases stdin)
  case Nil
  then show ?thesis by (simp add: ask_folder_location_def)
next
  case (Cons x xs)
  then show ?thesis by (simp add: ask_folder_location_def ask_retry_find)
qed

text \<open>
  C12: \<open>ask_folder_location\<close> raises only \<open>EOFError\<close>, and exactly when no line of the
  input names an existing path.
\<close>

theorem ask_folder_location_EOF:
  "ask_folder_location exists stdin = Inl e \<longleftrightarrow> e = EOFError \<and> (\<forall>y \<in> set stdin. \<not> exists y)"
proof (cases stdin)
  case Nil
  then show ?thesis by (auto simp: ask_folder_location_def)
next
  case (Cons x xs)
  then show ?thesis by (simp add: ask_folder_location_def ask_retry_EOF)
qed

text \<open>
  C13: when the set-up returns, the folder exists, the log file exists or could be
  created, \<open>depth\<close> and \<open>frequency\<close> are the clamped values of the command line, so
  \<open>0 \<le> depth \<le> 10\<close> and \<open>1 \<le> frequency \<le> 3600\<close>, and the flags are unchanged.
\<close>

theorem setup_args_checked:
  assumes "setup_args exists can_create a stdin = Inr (a', rest)"
  shows "exists (folder_location a') \<and>
         (exists (log_file_location a') \<or> can_create (log_file_location a')) \<and>
         depth a' = clamp_depth (depth a) \<and> frequency a' = clamp_frequency (frequency a) \<and>
         0 \<le> depth a' \<and> depth a' \<le> 10 \<and> 1 \<le> frequency a' \<and> frequency a' \<le> 3600 \<and>
         new_log_file a' = new_log_file a \<and> args_debug a' = args_debug a"
  using assms clamp_depth_range [of "depth a"] clamp_frequency_range [of "frequency a"]
  by (auto simp: setup_args_unfold
           dest: ask_folder_location_exists split: if_splits sum.splits prod.splits)

text \<open>The set-up fails only with \<open>EOFError\<close>, when a prompt runs out of input.\<close>

lemma setup_args_error:
  assumes "setup_args exists can_create a stdin = Inl e"
  shows "e = EOFError"
  using assms
  by (auto simp: setup_args_unfold
           dest: ask_folder_location_Inl split: if_splits sum.splits prod.splits)

subsection \<open>The watch loop: invariant, runs and convergence\<close>

lemma state_of_simps [simp]: "state_of (Inl (e, w)) = Stopped e w" "state_of (Inr w) = Watching w"
  by (simp_all add: state_of_def)

lemma world_of_state_of [simp]: "world_of_state (state_of r) = res_state r"
  by (cases r) (auto simp: state_of_def)

lemma initial_crawl_distinct:
  assumes "wf_tree cs" and "open_path (folder_location a)"
  shows "distinct (map path (FileList_list (res_state (initial_crawl a cs st start_world))))"
proof (cases "folder_analyze (folder_location a) cs (depth a)")
  case (Inl e)
  then show ?thesis by (simp add: initial_crawl_def start_world_def)
next
  case (Inr fl)
  from assms(1) have "\<forall>c \<in> set cs. wf_node c" and "wf_entries cs" by (simp_all add: wf_tree_def)
  from folder_analyze_distinct [OF this assms(2) Inr] have "distinct fl" .
  from FileList_add_list_distinct [OF this, of start_world st True] Inr show ?thesis
    by (simp add: initial_crawl_def start_world_def)
qed

lemma watch_cycle_distinct:
  "distinct (map path (FileList_list w)) \<Longrightarrow>
     distinct (map path (FileList_list (res_state (watch_cycle a cs st w))))"
  by (cases "folder_analyze (folder_location a) cs (depth a)")
     (simp_all add: watch_cycle_def FileList_compare_distinct)

text \<open>
  C3: in every state the program can reach, whatever the folder does between passes,
  no path is tracked twice in \<open>FileList.list\<close>, also when an exception has ended the loop.
\<close>

theorem watch_reach_distinct:
  assumes "open_path (folder_location a)" and "watch_reach a s"
  shows "distinct (map path (FileList_list (world_of_state s)))"
  using assms(2)
proof induction
  case (start cs st)
  from initial_crawl_distinct [OF start assms(1)] show ?case by simp
next
  case (cycle w cs st)
  from cycle.IH have "distinct (map path (FileList_list w))" by simp
  from watch_cycle_distinct [OF this] show ?case by simp
qed

lemma watch_run_reach:
  assumes "watch_reach a (Watching w)" and "\<forall>(cs, st) \<in> set envs. wf_tree cs"
  shows "watch_reach a (state_of (watch_run a envs w))"
  using assms
proof (induction envs arbitrary: w)
  case Nil
  then show ?case by simp
next
  case (Cons e envs)
  obtain cs st where e: "e = (cs, st)" by (cases e)
  with Cons.prems have r: "watch_reach a (state_of (watch_cycle a cs st w))"
    by (auto intro: watch_reach.cycle)
  show ?case
  proof (cases "watch_cycle a cs st w")
    case (Inl es)
    with r e show ?thesis by simp
  next
    case (Inr w1)
    with r have "watch_reach a (Watching w1)" by simp
    from Cons.IH [OF this] Cons.prems(2) Inr e show ?thesis by simp
  qed
qed

text \<open>
  C15: when the folder stops changing, so that every pass lists the same paths
  \<open>fl\<close> and each of them can be stat-ed, the loop converges: after \<open>n\<close> passes,
  for any \<open>n \<ge> 1\<close> at least the number of stale entries, the list describes the
  folder, with exactly the listed paths and their current attributes. One vanished
  entry per pass may be missed (\<open>consecutive_removal_missed\<close>), never more.
\<close>

theorem watch_run_converges:
  assumes fa: "folder_analyze (folder_location a) cs (depth a) = Inr fl"
    and ok: "\<forall>p \<in> set fl. st p \<noteq> None"
    and d: "distinct (map path (FileList_list w))"
    and n: "0 < n" "stale_count fl w \<le> n"
  shows "\<exists>w'. watch_run a (replicate n (cs, st)) w = Inr w' \<and> tracked w' = set fl \<and>
              snapshot w' = st |` set fl"
  using d n
proof (induction n arbitrary: w)
  case 0
  then show ?case by simp
next
  case (Suc n)
  obtain w1 where "compare_files st fl w = Inr w1"
    and cmp: "FileList_compare st fl w = Inr (remove_loop fl 0 w1)"
    using FileList_compare_ok [OF ok] by blast
  define w2 where "w2 = remove_loop fl 0 w1"
  have cyc: "watch_cycle a cs st w = Inr w2"
    using cmp fa by (simp add: watch_cycle_def w2_def)
  from cmp have cmp2: "FileList_compare st fl w = Inr w2" by (simp add: w2_def)
  have d2: "distinct (map path (FileList_list w2))"
    using FileList_compare_distinct [OF Suc.prems(1), of st fl] cmp2 by simp
  note dec = compare_stale_decreases [OF cmp2]
  show ?case
  proof (cases "n = 0")
    case True
    with dec Suc.prems have "stale_count fl w2 = 0" by linarith
    with compare_converged_iff_stale [OF cmp2] have t: "tracked w2 = set fl" by simp
    then have "snapshot w2 = st |` set fl"
      using compare_snapshot_converged [OF Suc.prems(1) cmp2] by simp
    with t True cyc show ?thesis by simp
  next
    case False
    from dec Suc.prems have "stale_count fl w2 \<le> n" by linarith
    with False d2 Suc.IH [of w2] obtain w' where
      "watch_run a (replicate n (cs, st)) w2 = Inr w'" and "tracked w' = set fl"
      and "snapshot w' = st |` set fl" by auto
    with cyc show ?thesis by simp
  qed
qed



lemma watch_run_fixed:
  "watch_cycle a cs st w = Inr w \<Longrightarrow> watch_run a (replicate n (cs, st)) w = Inr w"
  by (induction n) simp_all

text \<open>
  C14: the whole program on a folder that does not change: whatever the number of
  passes, \<open>main_function\<close> ends in the state of its first crawl, with every listed
  path tracked once with its attributes, one \<open>found\<close> line per path, and no event
  logged by any later pass.
\<close>

theorem main_function_stable_folder:
  assumes m: "main_function exists can_create a stdin (cs, st) (replicate n (cs, st)) = Running a' f s"
    and wf: "wf_tree cs" and o: "open_path (folder_location a')"
    and fa: "folder_analyze (folder_location a') cs (depth a') = Inr fl"
    and ok: "\<forall>p \<in> set fl. st p \<noteq> None"
  shows "s = Watching \<lparr>FileList_list = map (\<lambda>p. \<lparr>path = p, attributes = the (st p)\<rparr>) fl,
                      logged = map (\<lambda>p. (p, Found)) fl\<rparr>"
proof -
  let ?w = "\<lparr>FileList_list = map (\<lambda>p. \<lparr>path = p, attributes = the (st p)\<rparr>) fl,
             logged = map (\<lambda>p. (p, Found)) fl\<rparr> :: 'a world"
  from m have s: "s = state_of (then_r (initial_crawl a' cs st start_world) (watch_run a' (replicate n (cs, st))))"
    by (auto simp: main_function_def split: sum.splits)
  have crawl: "initial_crawl a' cs st start_world = Inr ?w"
    using FileList_add_list_ok [OF ok, of True start_world] fa
    by (simp add: initial_crawl_def start_world_def comp_def)
  from wf have "\<forall>c \<in> set cs. wf_node c" and "wf_entries cs" by (simp_all add: wf_tree_def)
  from folder_analyze_distinct [OF this o fa] have d: "distinct fl" .
  have cur: "current_attrs st (set fl) (FileList_list ?w)"
    using ok by (auto simp: current_attrs_def)
  have "FileList_compare st fl ?w = Inr ?w"
    using d cur by (intro compare_stable) (simp_all add: comp_def image_image)
  then have "watch_cycle a' cs st ?w = Inr ?w" by (simp add: watch_cycle_def fa)
  then have "watch_run a' (replicate n (cs, st)) ?w = Inr ?w" by (rule watch_run_fixed)
  with s crawl show ?thesis by simp
qed

end
