(* ===== verification/Replay.thy ===== *)
theory Replay
  imports Watcher
begin

section \<open>The log as a record of the list\<close>

text \<open>
  A reader of the log file can replay its lines: \<open>was added.\<close>, \<open>was found.\<close> and
  \<open>was modified.\<close> put a path in the set of watched paths, \<open>was removed.\<close> takes it
  out. This theory shows that, while \<open>main_function\<close> runs, the replayed set is
  exactly the set of paths in \<open>FileList.list\<close>, whatever the folder does, and
  although some removals are logged one pass late (they are also applied late).
\<close>

definition apply_event :: "string set \<Rightarrow> event \<Rightarrow> string set" where
  "apply_event S ev = (case snd ev of Removed \<Rightarrow> S - {fst ev} | _ \<Rightarrow> insert (fst ev) S)"

definition replay :: "event list \<Rightarrow> string set" where
  "replay evs = foldl apply_event {} evs"

text \<open>
  After an exception the log may say more than the list: by at most the path whose
  \<open>os.stat\<close> raised, which \<open>compare\<close> logs as added before it stats it.
\<close>

definition log_after_error :: "py_error \<Rightarrow> 'a world \<Rightarrow> bool" where
  "log_after_error e w \<longleftrightarrow>
     tracked w \<subseteq> replay (logged w) \<and> replay (logged w) - tracked w \<subseteq> {p. e = FileNotFoundError p}"

lemma replay_Nil [simp]: "replay [] = {}"
  by (simp add: replay_def)

lemma replay_snoc [simp]:
  "replay (evs @ [(p, k)]) = (if k = Removed then replay evs - {p} else insert p (replay evs))"
  by (cases k) (simp_all add: replay_def apply_event_def)

lemma replay_append: "replay (xs @ ys) = foldl apply_event (replay xs) ys"
  by (simp add: replay_def)

lemma foldl_removed: "foldl apply_event S (removed_events rs) = S - path ` set rs"
  by (induction rs arbitrary: S) (auto simp: apply_event_def)

lemma replay_removed: "replay (evs @ removed_events rs) = replay evs - path ` set rs"
  by (simp only: replay_append foldl_removed)

lemma compare_file_replay:
  assumes c: "compare_file st q w = Inr w1" and r: "replay (logged w) = tracked w"
  shows "replay (logged w1) = tracked w1"
proof (cases "q \<in> tracked w")
  case False
  with c obtain a where "w1 = w\<lparr>logged := logged w @ [(q, Added)],
                           FileList_list := FileList_list w @ [\<lparr>path = q, attributes = a\<rparr>]\<rparr>"
    by (auto simp: compare_file_untracked split: option.splits)
  with r show ?thesis by simp
next
  case True
  then obtain pre y post where xs: "FileList_list w = pre @ y # post" and y: "path y = q"
    and post: "\<forall>z \<in> set post. path z \<noteq> q"
    using last_occurrence_split by blast
  from c obtain a where a: "st q = Some a"
    using compare_file_tracked [OF xs y post] by (auto split: option.splits)
  show ?thesis
  proof (cases "a = attributes y")
    case True
    with c a have "w1 = w" using compare_file_tracked [OF xs y post] by simp
    with r show ?thesis by simp
  next
    case False
    with c a have "w1 = w\<lparr>logged := logged w @ [(q, Modified)],
                          FileList_list := pre @ y\<lparr>attributes := a\<rparr> # post\<rparr>"
      using compare_file_tracked [OF xs y post] by simp
    with r xs y show ?thesis by auto
  qed
qed

lemma compare_files_replay:
  "compare_files st fl w = Inr w1 \<Longrightarrow> replay (logged w) = tracked w \<Longrightarrow> replay (logged w1) = tracked w1"
proof (induction fl arbitrary: w)
  case Nil
  then show ?case by simp
next
  case (Cons q fs)
  from Cons.prems(1) obtain w0 where c: "compare_file st q w = Inr w0"
    and cs: "compare_files st fs w0 = Inr w1"
    by (auto simp: then_r_Inr_iff)
  from compare_file_replay [OF c Cons.prems(2)] have "replay (logged w0) = tracked w0" .
  with cs show ?case by (rule Cons.IH)
qed

lemma FileList_compare_replay:
  assumes d: "distinct (map path (FileList_list w))" and r: "replay (logged w) = tracked w"
    and c: "FileList_compare st fl w = Inr w'"
  shows "replay (logged w') = tracked w'"
proof -
  from c obtain w1 where c1: "compare_files st fl w = Inr w1" and w': "w' = remove_loop fl 0 w1"
    by (rule FileList_compare_Inr_split)
  from compare_files_distinct [OF d, of st fl] c1
  have d1: "distinct (map path (FileList_list w1))" by simp
  from compare_files_replay [OF c1 r] have r1: "replay (logged w1) = tracked w1" .
  show ?thesis
    using sweep_paths [OF d1, of fl False] r1
    by (simp add: w' remove_loop_sweep replay_removed)
qed

lemma FileList_add_list_replay:
  "FileList_add_list st fl first w = Inr w' \<Longrightarrow> replay (logged w) = tracked w \<Longrightarrow>
     replay (logged w') = tracked w'"
proof (induction fl arbitrary: w)
  case Nil
  then show ?case by simp
next
  case (Cons q fs)
  from Cons.prems(1) obtain a where a: "st q = Some a"
    by (cases "st q") (auto simp: FileList_add_def os_stat_def)
  let ?w0 = "w\<lparr>FileList_list := FileList_list w @ [\<lparr>path = q, attributes = a\<rparr>]\<rparr>"
  let ?w1 = "?w0\<lparr>logged := log q (if first then 4 else 1) (logged ?w0)\<rparr>"
  from Cons.prems(1) a have rest: "FileList_add_list st fs first ?w1 = Inr w'"
    by (simp add: FileList_add_def os_stat_def)
  have "replay (logged ?w1) = tracked ?w1"
    using Cons.prems(2) by (cases first) simp_all
  with rest show ?case by (rule Cons.IH)
qed

lemma log_after_error_eq: "replay (logged w) = tracked w \<Longrightarrow> log_after_error e w"
  by (simp add: log_after_error_def)

lemma compare_file_replay_error:
  assumes c: "compare_file st q w = Inl (e, w1)" and r: "replay (logged w) = tracked w"
  shows "log_after_error e w1"
proof (cases "q \<in> tracked w")
  case False
  with c have "st q = None" and "e = FileNotFoundError q"
    and "w1 = w\<lparr>logged := logged w @ [(q, Added)]\<rparr>"
    by (auto simp: compare_file_untracked split: option.splits)
  with r show ?thesis by (auto simp: log_after_error_def)
next
  case True
  then obtain pre y post where xs: "FileList_list w = pre @ y # post" and y: "path y = q"
    and post: "\<forall>z \<in> set post. path z \<noteq> q"
    using last_occurrence_split by blast
  from c have "w1 = w"
    using compare_file_tracked [OF xs y post] by (auto split: option.splits if_splits)
  with r show ?thesis by (simp add: log_after_error_eq)
qed

lemma compare_files_replay_error:
  "compare_files st fl w = Inl (e, w1) \<Longrightarrow> replay (logged w) = tracked w \<Longrightarrow> log_after_error e w1"
proof (induction fl arbitrary: w)
  case Nil
  then show ?case by simp
next
  case (Cons q fs)
  show ?case
  proof (cases "compare_file st q w")
    case (Inl es)
    with Cons.prems(1) have "compare_file st q w = Inl (e, w1)" by simp
    from compare_file_replay_error [OF this Cons.prems(2)] show ?thesis .
  next
    case (Inr w0)
    with Cons.prems(1) have cs: "compare_files st fs w0 = Inl (e, w1)" by simp
    from compare_file_replay [OF Inr Cons.prems(2)] have "replay (logged w0) = tracked w0" .
    with cs show ?thesis by (rule Cons.IH)
  qed
qed

lemma FileList_compare_replay_error:
  "FileList_compare st fl w = Inl (e, w1) \<Longrightarrow> replay (logged w) = tracked w \<Longrightarrow> log_after_error e w1"
  by (cases "compare_files st fl w")
     (auto simp: FileList_compare_unfold intro: compare_files_replay_error)

lemma FileList_add_list_replay_error:
  "FileList_add_list st fl first w = Inl (e, w1) \<Longrightarrow> replay (logged w) = tracked w \<Longrightarrow> log_after_error e w1"
proof (induction fl arbitrary: w)
  case Nil
  then show ?case by simp
next
  case (Cons q fs)
  show ?case
  proof (cases "st q")
    case None
    with Cons.prems show ?thesis by (auto simp: FileList_add_def os_stat_def log_after_error_eq)
  next
    case (Some a)
    let ?w0 = "w\<lparr>FileList_list := FileList_list w @ [\<lparr>path = q, attributes = a\<rparr>]\<rparr>"
    let ?w1 = "?w0\<lparr>logged := log q (if first then 4 else 1) (logged ?w0)\<rparr>"
    from Cons.prems(1) Some have rest: "FileList_add_list st fs first ?w1 = Inl (e, w1)"
      by (simp add: FileList_add_def os_stat_def)
    have "replay (logged ?w1) = tracked ?w1"
      using Cons.prems(2) by (cases first) simp_all
    with rest show ?thesis by (rule Cons.IH)
  qed
qed

lemma state_of_eq_Stopped: "state_of r = Stopped e w \<longleftrightarrow> r = Inl (e, w)"
  by (cases r) (auto simp: state_of_def)

lemma state_of_eq_Watching: "state_of r = Watching w \<longleftrightarrow> r = Inr w"
  by (cases r) (auto simp: state_of_def)

lemma watch_reach_log_inv:
  assumes "open_path (folder_location a)" and "watch_reach a s"
  shows "distinct (map path (FileList_list (world_of_state s))) \<and>
         (\<forall>w. s = Watching w \<longrightarrow> replay (logged w) = tracked w) \<and>
         (\<forall>e w. s = Stopped e w \<longrightarrow> log_after_error e w)"
  using assms(2)
proof induction
  case (start cs st)
  have r0: "replay (logged start_world) = tracked start_world" by (simp add: start_world_def)
  have ok: "replay (logged w) = tracked w" if "initial_crawl a cs st start_world = Inr w" for w
  proof (cases "folder_analyze (folder_location a) cs (depth a)")
    case (Inl e)
    with that show ?thesis by (simp add: initial_crawl_def)
  next
    case (Inr fl)
    with that have "FileList_add_list st fl True start_world = Inr w" by (simp add: initial_crawl_def)
    from FileList_add_list_replay [OF this r0] show ?thesis .
  qed
  have err: "log_after_error e w" if "initial_crawl a cs st start_world = Inl (e, w)" for e w
  proof (cases "folder_analyze (folder_location a) cs (depth a)")
    case (Inl e')
    with that r0 show ?thesis by (auto simp: initial_crawl_def intro: log_after_error_eq)
  next
    case (Inr fl)
    with that have "FileList_add_list st fl True start_world = Inl (e, w)" by (simp add: initial_crawl_def)
    from FileList_add_list_replay_error [OF this r0] show ?thesis .
  qed
  from initial_crawl_distinct [OF start assms(1)] ok err
  show ?case by (simp add: state_of_eq_Watching state_of_eq_Stopped)
next
  case (cycle w cs st)
  from cycle.IH have d: "distinct (map path (FileList_list w))"
    and r: "replay (logged w) = tracked w" by simp_all
  have ok: "replay (logged w') = tracked w'" if "watch_cycle a cs st w = Inr w'" for w'
  proof (cases "folder_analyze (folder_location a) cs (depth a)")
    case (Inl e)
    with that show ?thesis by (simp add: watch_cycle_def)
  next
    case (Inr fl)
    with that have "FileList_compare st fl w = Inr w'" by (simp add: watch_cycle_def)
    with d r show ?thesis by (rule FileList_compare_replay)
  qed
  have err: "log_after_error e w'" if "watch_cycle a cs st w = Inl (e, w')" for e w'
  proof (cases "folder_analyze (folder_location a) cs (depth a)")
    case (Inl e')
    with that r show ?thesis by (auto simp: watch_cycle_def intro: log_after_error_eq)
  next
    case (Inr fl)
    with that have "FileList_compare st fl w = Inl (e, w')" by (simp add: watch_cycle_def)
    from FileList_compare_replay_error [OF this r] show ?thesis .
  qed
  from watch_cycle_distinct [OF d, of a cs st] ok err
  show ?case by (simp add: state_of_eq_Watching state_of_eq_Stopped)
qed

text \<open>
  C18: while the program runs, replaying its log gives exactly the paths it tracks:
  every path of \<open>FileList.list\<close> was last logged as added, found or modified, and every
  path last logged so is in the list.
\<close>

theorem watch_reach_log_replay:
  assumes "open_path (folder_location a)" and "watch_reach a (Watching w)"
  shows "replay (logged w) = tracked w"
  using watch_reach_log_inv [OF assms] by simp

text \<open>
  C22: when an exception has ended the loop, every tracked path is still in the
  replayed log, and the log may report one path more: the one whose \<open>os.stat\<close>
  raised \<open>FileNotFoundError\<close>, logged as added although it was never tracked.
\<close>

theorem watch_reach_stopped_log:
  assumes "open_path (folder_location a)" and "watch_reach a (Stopped e w)"
  shows "tracked w \<subseteq> replay (logged w) \<and> replay (logged w) - tracked w \<subseteq> {p. e = FileNotFoundError p}"
  using watch_reach_log_inv [OF assms] by (simp add: log_after_error_def)

end
