(* ===== verification/Events.thy ===== *)
theory Events
  imports Snapshot
begin

section \<open>The events of one diff\<close>

text \<open>
  The events \<open>compare\<close> (\<open>src/Watch.py\<close>, lines 81--110) logs in one call, against the
  spec's completeness property: for the tracked paths \<open>A\<close> and the listing \<open>B\<close>, the
  events should be \<open>added\<close> for \<open>B - A\<close>, \<open>removed\<close> for \<open>A - B\<close> and \<open>modified\<close>
  for the paths of \<open>A \<inter> B\<close> whose attributes changed, each path at most once.
  The first pass meets this; the removal pass logs a subset of \<open>A - B\<close>, all of it
  exactly when no two neighbouring entries vanished together.
\<close>

text \<open>The events logged for one listed path by one iteration of the first pass.\<close>

definition path_events :: "'a stat_fn \<Rightarrow> string \<Rightarrow> 'a world \<Rightarrow> event list" where
  "path_events st q w =
     (if q \<notin> tracked w then [(q, Added)] else if st q = snapshot w q then [] else [(q, Modified)])"

lemma snapshot_logged [simp]: "snapshot (w\<lparr>logged := evs\<rparr>) = snapshot w"
  by (simp add: snapshot_def)

lemma snapshot_entry:
  assumes "FileList_list w = pre @ y # post" and "path y \<notin> path ` set pre"
  shows "snapshot w (path y) = Some (attributes y)"
proof -
  have "map_of (map (\<lambda>f. (path f, attributes f)) pre) (path y) = None"
    using assms(2) by (simp add: map_of_eq_None_iff image_image)
  then show ?thesis using assms(1) by (simp add: snapshot_def map_add_def)
qed

lemma compare_file_events:
  assumes d: "distinct (map path (FileList_list w))" and c: "compare_file st q w = Inr w0"
  shows "tracked w0 = insert q (tracked w) \<and> snapshot w0 = (snapshot w)(q := st q) \<and>
         logged w0 = logged w @ path_events st q w"
proof (cases "q \<in> tracked w")
  case False
  with c obtain a where a: "st q = Some a" and w0: "w0 = w\<lparr>logged := logged w @ [(q, Added)],
                           FileList_list := FileList_list w @ [\<lparr>path = q, attributes = a\<rparr>]\<rparr>"
    by (auto simp: compare_file_untracked split: option.splits)
  have "map_of (map (\<lambda>f. (path f, attributes f)) (FileList_list w)) q = None"
    using False by (simp add: map_of_eq_None_iff image_image)
  then have "snapshot w0 = (snapshot w)(q := st q)"
    using a by (auto simp: w0 snapshot_def map_add_def split: option.split)
  with False w0 show ?thesis by (simp add: path_events_def)
next
  case True
  then obtain pre y post where xs: "FileList_list w = pre @ y # post" and y: "path y = q"
    and post: "\<forall>z \<in> set post. path z \<noteq> q"
    using last_occurrence_split by blast
  from d xs y have pre: "q \<notin> path ` set pre" by auto
  from snapshot_entry [OF xs] pre y have sq: "snapshot w q = Some (attributes y)" by simp
  from c obtain a where a: "st q = Some a"
    using compare_file_tracked [OF xs y post] by (auto split: option.splits)
  have nq: "map_of (map (\<lambda>f. (path f, attributes f)) pre) q = None"
    using pre by (simp add: map_of_eq_None_iff image_image)
  show ?thesis
  proof (cases "a = attributes y")
    case True
    with c a have "w0 = w" using compare_file_tracked [OF xs y post] by simp
    with True a sq \<open>q \<in> tracked w\<close> show ?thesis by (auto simp: path_events_def)
  next
    case False
    with c a have w0: "w0 = w\<lparr>logged := logged w @ [(q, Modified)],
                          FileList_list := pre @ y\<lparr>attributes := a\<rparr> # post\<rparr>"
      using compare_file_tracked [OF xs y post] by simp
    have "snapshot w0 = (snapshot w)(q := st q)"
    proof
      fix p
      show "snapshot w0 p = ((snapshot w)(q := st q)) p"
        using nq a y by (auto simp: w0 xs snapshot_def map_add_def split: option.split)
    qed
    with w0 xs y False a sq \<open>q \<in> tracked w\<close> show ?thesis by (auto simp: path_events_def)
  qed
qed


text \<open>Events of the first pass: each listed path at most once, added or modified.\<close>

definition pass_events :: "'a stat_fn \<Rightarrow> string list \<Rightarrow> 'a world \<Rightarrow> event list \<Rightarrow> bool" where
  "pass_events st fl w evs \<longleftrightarrow>
     distinct (map fst evs) \<and> snd ` set evs \<subseteq> {Added, Modified} \<and>
     {p. (p, Added) \<in> set evs} = set fl - tracked w \<and>
     {p. (p, Modified) \<in> set evs} = {p \<in> set fl \<inter> tracked w. st p \<noteq> snapshot w p}"

lemma pass_events_Nil [simp]: "pass_events st [] w []"
  by (simp add: pass_events_def)

lemma pass_events_Cons:
  assumes t: "tracked w0 = insert q (tracked w)" and s: "snapshot w0 = (snapshot w)(q := st q)"
    and e: "pass_events st fs w0 evs"
  shows "pass_events st (q # fs) w (path_events st q w @ evs)"
proof -
  from e have A: "{p. (p, Added) \<in> set evs} = set fs - tracked w0"
    and M: "{p. (p, Modified) \<in> set evs} = {p \<in> set fs \<inter> tracked w0. st p \<noteq> snapshot w0 p}"
    by (simp_all add: pass_events_def)
  have qa: "(q, Added) \<notin> set evs"
  proof
    assume "(q, Added) \<in> set evs"
    then have "q \<in> {p. (p, Added) \<in> set evs}" by simp
    with A t show False by simp
  qed
  have qm: "(q, Modified) \<notin> set evs"
  proof
    assume "(q, Modified) \<in> set evs"
    then have "q \<in> {p. (p, Modified) \<in> set evs}" by simp
    with M s show False by simp
  qed
  from qa qm e have "q \<notin> fst ` set evs" by (force simp: pass_events_def)
  moreover have "distinct (map fst evs)" and "snd ` set evs \<subseteq> {Added, Modified}"
    using e by (simp_all add: pass_events_def)
  moreover have "{p. (p, Added) \<in> set evs} = set fs - insert q (tracked w)"
    using e t by (simp add: pass_events_def)
  moreover have "{p. (p, Modified) \<in> set evs} =
                 {p \<in> set fs \<inter> insert q (tracked w). st p \<noteq> ((snapshot w)(q := st q)) p}"
    using e t s by (simp add: pass_events_def)
  ultimately show ?thesis
    by (auto simp: pass_events_def path_events_def split: if_splits)
qed

lemma compare_files_events:
  assumes "distinct (map path (FileList_list w))" and "compare_files st fl w = Inr w1"
  shows "\<exists>evs. logged w1 = logged w @ evs \<and> pass_events st fl w evs"
  using assms
proof (induction fl arbitrary: w)
  case Nil
  then show ?case by auto
next
  case (Cons q fs)
  from Cons.prems(2) obtain w0 where c: "compare_file st q w = Inr w0"
    and cs: "compare_files st fs w0 = Inr w1"
    by (auto simp: then_r_Inr_iff)
  note e0 = compare_file_events [OF Cons.prems(1) c]
  from compare_file_distinct [OF Cons.prems(1), of st q] c
  have d0: "distinct (map path (FileList_list w0))" by simp
  from Cons.IH [OF d0 cs] obtain evs where l: "logged w1 = logged w0 @ evs"
    and p: "pass_events st fs w0 evs" by blast
  from pass_events_Cons [OF _ _ p] e0
  have "pass_events st (q # fs) w (path_events st q w @ evs)" by blast
  with l e0 show ?case by auto
qed

text \<open>
  C21: the events one successful \<open>compare\<close> logs, against the spec's completeness
  property, for a list without repeated paths: each path is reported at most once,
  never as found; \<open>added\<close> exactly for the listed paths not tracked before;
  \<open>modified\<close> exactly for the listed tracked paths whose attributes changed;
  \<open>removed\<close> only for tracked paths no longer listed, and for all of them if and
  only if no two neighbouring tracked entries vanished together.
\<close>

theorem FileList_compare_events:
  assumes d: "distinct (map path (FileList_list w))" and r: "FileList_compare st fl w = Inr w'"
  shows "\<exists>evs. logged w' = logged w @ evs \<and> distinct (map fst evs) \<and>
           snd ` set evs \<subseteq> {Added, Modified, Removed} \<and>
           {p. (p, Added) \<in> set evs} = set fl - tracked w \<and>
           {p. (p, Modified) \<in> set evs} = {p \<in> set fl \<inter> tracked w. st p \<noteq> snapshot w p} \<and>
           {p. (p, Removed) \<in> set evs} \<subseteq> tracked w - set fl \<and>
           ({p. (p, Removed) \<in> set evs} = tracked w - set fl \<longleftrightarrow>
              \<not> adjacent_stale fl (map path (FileList_list w)))"
proof -
  from r obtain w1 where c: "compare_files st fl w = Inr w1" and w': "w' = remove_loop fl 0 w1"
    by (rule FileList_compare_Inr_split)
  from compare_files_events [OF d c] obtain evs1 where l1: "logged w1 = logged w @ evs1"
    and p: "pass_events st fl w evs1" by blast
  let ?xs = "FileList_list w1"
  let ?rs = "snd (sweep fl False ?xs)"
  from compare_files_distinct [OF d, of st fl] c have d1: "distinct (map path ?xs)" by simp
  have l': "logged w' = logged w @ evs1 @ removed_events ?rs"
    by (simp add: w' remove_loop_sweep l1)
  have t1: "tracked w1 = tracked w \<union> set fl" by (rule compare_files_tracked [OF c])
  have rs_sub: "set ?rs \<subseteq> set ?xs" using sweep_set [of fl False ?xs] by blast
  have rs_stale: "path f \<notin> set fl" if "f \<in> set ?rs" for f
    using that by (rule sweep_removed_stale)
  have removed: "{p. (p, Removed) \<in> set (evs1 @ removed_events ?rs)} = path ` set ?rs"
    using p by (auto simp: pass_events_def)
  have in_fl: "fst ` set evs1 \<subseteq> set fl"
  proof
    fix q assume "q \<in> fst ` set evs1"
    then obtain k where qk: "(q, k) \<in> set evs1" by force
    with p have "k = Added \<or> k = Modified" by (force simp: pass_events_def)
    with qk p show "q \<in> set fl" by (auto simp: pass_events_def)
  qed
  have dist: "distinct (map fst (evs1 @ removed_events ?rs))"
    using p sweep_removed_distinct [OF d1, of fl False] in_fl rs_stale
    by (auto simp: pass_events_def comp_def)
  have T: "tracked w - set fl = path ` set ?xs - set fl" using t1 by auto
  have sub: "path ` set ?rs \<subseteq> tracked w - set fl" using rs_sub rs_stale T by auto
  have kept: "path ` set (fst (sweep fl False ?xs)) = path ` set ?xs - path ` set ?rs"
    by (rule sweep_paths [OF d1])
  have stale_iff: "(\<exists>f \<in> set (fst (sweep fl False ?xs)). path f \<notin> set fl) \<longleftrightarrow>
                   adjacent_stale fl (map path (FileList_list w))"
    using sweep_kept_stale_iff [of fl False ?xs] compare_files_adjacent [OF c] by simp
  have all_iff: "path ` set ?rs = tracked w - set fl \<longleftrightarrow> \<not> adjacent_stale fl (map path (FileList_list w))"
  proof -
    have "path ` set ?rs = tracked w - set fl \<longleftrightarrow> path ` set ?xs - set fl \<subseteq> path ` set ?rs"
      using sub by (simp add: set_eq_subset T)
    also have "\<dots> \<longleftrightarrow> (\<forall>q \<in> path ` set ?xs - path ` set ?rs. q \<in> set fl)"
      by blast
    also have "\<dots> \<longleftrightarrow> (\<forall>q \<in> path ` set (fst (sweep fl False ?xs)). q \<in> set fl)"
      by (simp only: kept)
    also have "\<dots> \<longleftrightarrow> \<not> (\<exists>f \<in> set (fst (sweep fl False ?xs)). path f \<notin> set fl)"
      by blast
    finally show ?thesis using stale_iff by simp
  qed
  have "{p. (p, Added) \<in> set (evs1 @ removed_events ?rs)} = set fl - tracked w"
    and "{p. (p, Modified) \<in> set (evs1 @ removed_events ?rs)} =
         {p \<in> set fl \<inter> tracked w. st p \<noteq> snapshot w p}"
    and "snd ` set (evs1 @ removed_events ?rs) \<subseteq> {Added, Modified, Removed}"
    using p by (auto simp: pass_events_def)
  with l' dist removed sub all_iff show ?thesis by (intro exI [of _ "evs1 @ removed_events ?rs"]) simp
qed

subsection \<open>The events do not depend on the order of the listing\<close>

lemma sweep_listing_set: "set fl = set fl' \<Longrightarrow> sweep fl b xs = sweep fl' b xs"
  by (induction fl b xs rule: sweep.induct) simp_all

lemma sweep_all_listed_snd: "\<forall>f \<in> set ys. path f \<in> set fl \<Longrightarrow> snd (sweep fl b ys) = []"
  by (induction fl b ys rule: sweep.induct) auto

lemma sweep_paths_only:
  "map path xs = map path ys \<Longrightarrow> map path (snd (sweep fl b xs)) = map path (snd (sweep fl b ys))"
proof (induction fl b xs arbitrary: ys rule: sweep.induct)
  case (1 fl skip)
  then show ?case by simp
next
  case (2 fl f fs)
  then show ?case by (cases ys) auto
next
  case (3 fl f fs)
  then show ?case by (cases ys) auto
qed

lemma sweep_append_listed:
  "\<forall>f \<in> set ys. path f \<in> set fl \<Longrightarrow> snd (sweep fl b (xs @ ys)) = snd (sweep fl b xs)"
  by (induction fl b xs rule: sweep.induct) (simp_all add: sweep_all_listed_snd)

text \<open>The paths \<open>compare\<close> removes depend only on the list before the call and the set of listed paths.\<close>

lemma compare_removed_paths:
  assumes "compare_files st fl w = Inr w1"
  shows "map path (snd (sweep fl False (FileList_list w1))) = map path (snd (sweep fl False (FileList_list w)))"
proof -
  let ?k = "length (FileList_list w)"
  from compare_files_Inr_paths [OF assms] obtain new where
    new: "map path (FileList_list w1) = map path (FileList_list w) @ new" "set new = set fl - tracked w"
    by blast
  have split: "FileList_list w1 = take ?k (FileList_list w1) @ drop ?k (FileList_list w1)" by simp
  have "map path (take ?k (FileList_list w1)) = map path (FileList_list w)"
    using arg_cong [OF new(1), of "take ?k"] by (simp add: take_map)
  moreover have "\<forall>f \<in> set (drop ?k (FileList_list w1)). path f \<in> set fl"
  proof
    fix f assume "f \<in> set (drop ?k (FileList_list w1))"
    then have "path f \<in> set (drop ?k (map path (FileList_list w1)))" by (simp add: drop_map)
    with new show "path f \<in> set fl" by simp
  qed
  ultimately show ?thesis
    using split sweep_append_listed sweep_paths_only by metis
qed

lemma pass_events_set:
  "pass_events st fl w evs \<Longrightarrow>
     set evs = (\<lambda>p. (p, Added)) ` (set fl - tracked w) \<union>
               (\<lambda>p. (p, Modified)) ` {p \<in> set fl \<inter> tracked w. st p \<noteq> snapshot w p}"
proof (rule set_eqI)
  assume p: "pass_events st fl w evs"
  fix x :: event
  obtain q k where x: "x = (q, k)" by (cases x)
  from p have A: "{p. (p, Added) \<in> set evs} = set fl - tracked w"
    and M: "{p. (p, Modified) \<in> set evs} = {p \<in> set fl \<inter> tracked w. st p \<noteq> snapshot w p}"
    and K: "snd ` set evs \<subseteq> {Added, Modified}"
    by (simp_all add: pass_events_def)
  show "x \<in> set evs \<longleftrightarrow> x \<in> (\<lambda>p. (p, Added)) ` (set fl - tracked w) \<union>
               (\<lambda>p. (p, Modified)) ` {p \<in> set fl \<inter> tracked w. st p \<noteq> snapshot w p}"
  proof (cases k)
    case Added
    have "(q, Added) \<in> set evs \<longleftrightarrow> q \<in> set fl - tracked w" using A by blast
    with x Added show ?thesis by auto
  next
    case Modified
    have "(q, Modified) \<in> set evs \<longleftrightarrow> q \<in> {p \<in> set fl \<inter> tracked w. st p \<noteq> snapshot w p}"
      using M by blast
    with x Modified show ?thesis by auto
  next
    case Removed
    have "(q, Removed) \<notin> set evs" using K by force
    with x Removed show ?thesis by auto
  next
    case Found
    have "(q, Found) \<notin> set evs" using K by force
    with x Found show ?thesis by auto
  qed
qed

lemma compare_outcome_sets:
  assumes d: "distinct (map path (FileList_list w))" and r: "FileList_compare st fl w = Inr w'"
  shows "set (drop (length (logged w)) (logged w')) =
           (\<lambda>p. (p, Added)) ` (set fl - tracked w) \<union>
           (\<lambda>p. (p, Modified)) ` {p \<in> set fl \<inter> tracked w. st p \<noteq> snapshot w p} \<union>
           (\<lambda>p. (p, Removed)) ` path ` set (snd (sweep fl False (FileList_list w)))"
    and "tracked w' = (tracked w \<union> set fl) - path ` set (snd (sweep fl False (FileList_list w)))"
proof -
  from r obtain w1 where c: "compare_files st fl w = Inr w1" and w': "w' = remove_loop fl 0 w1"
    by (rule FileList_compare_Inr_split)
  from compare_files_events [OF d c] obtain evs1 where l1: "logged w1 = logged w @ evs1"
    and p: "pass_events st fl w evs1" by blast
  let ?rs = "snd (sweep fl False (FileList_list w1))"
  have rp: "path ` set ?rs = path ` set (snd (sweep fl False (FileList_list w)))"
    using arg_cong [OF compare_removed_paths [OF c], of set] by simp
  have "drop (length (logged w)) (logged w') = evs1 @ removed_events ?rs"
    by (simp add: w' remove_loop_sweep l1)
  then show "set (drop (length (logged w)) (logged w')) =
           (\<lambda>p. (p, Added)) ` (set fl - tracked w) \<union>
           (\<lambda>p. (p, Modified)) ` {p \<in> set fl \<inter> tracked w. st p \<noteq> snapshot w p} \<union>
           (\<lambda>p. (p, Removed)) ` path ` set (snd (sweep fl False (FileList_list w)))"
  proof -
    have re: "set (removed_events ?rs) =
              (\<lambda>p. (p, Removed)) ` path ` set (snd (sweep fl False (FileList_list w)))"
      unfolding rp [symmetric] by auto
    show ?thesis using \<open>drop (length (logged w)) (logged w') = evs1 @ removed_events ?rs\<close>
      pass_events_set [OF p] re by (simp only: set_append)
  qed
  from compare_files_distinct [OF d, of st fl] c have d1: "distinct (map path (FileList_list w1))" by simp
  have "tracked w' = path ` set (fst (sweep fl False (FileList_list w1)))"
    by (simp add: w' remove_loop_sweep)
  also have "\<dots> = tracked w1 - path ` set ?rs" by (rule sweep_paths [OF d1])
  finally show "tracked w' = (tracked w \<union> set fl) - path ` set (snd (sweep fl False (FileList_list w)))"
    using compare_files_tracked [OF c] rp by simp
qed

text \<open>
  C24: the spec's determinism requirement: two listings with the same paths in a
  different order make \<open>compare\<close> log the same set of events and leave the same
  tracked paths.
\<close>

theorem FileList_compare_order_independent:
  assumes d: "distinct (map path (FileList_list w))" and s: "set fl = set fl'"
    and r1: "FileList_compare st fl w = Inr w1" and r2: "FileList_compare st fl' w = Inr w2"
  shows "set (drop (length (logged w)) (logged w1)) = set (drop (length (logged w)) (logged w2)) \<and>
         tracked w1 = tracked w2"
  using compare_outcome_sets [OF d r1] compare_outcome_sets [OF d r2]
  by (simp only: s sweep_listing_set [OF s])

end
