(* ===== verification/Scan_Spec.thy ===== *)
theory Scan_Spec
  imports Scanner
begin

section \<open>What the scanner lists\<close>

text \<open>
  A declarative description of the listing of \<open>folder_analyze\<close> (\<open>src/Watch.py\<close>,
  lines 173--196): \<open>entries\<close> collects every entry of the tree that the filter of
  line 185 keeps (files whose name does not start with a dot, and all directories),
  by absolute path, in no particular order. The listing is then characterised by the
  separator count of each path alone.
\<close>

primrec entries :: "string \<Rightarrow> node \<Rightarrow> string list" where
  "entries p (FileNode n) = (if hd n \<noteq> CHR ''.'' then [path_join p n] else [])"
| "entries p (DirNode n cs) = path_join p n # concat (map (entries (path_join p n)) cs)"

definition forest_entries :: "string \<Rightarrow> node list \<Rightarrow> string list" where
  "forest_entries p cs = concat (map (entries p) cs)"

lemma forest_entries_simps [simp]:
  "forest_entries p [] = []"
  "forest_entries p (c # cs) = entries p c @ forest_entries p cs"
  by (simp_all add: forest_entries_def)

lemma entries_deeper:
  "wf_node c \<Longrightarrow> open_path q \<Longrightarrow> x \<in> set (entries q c) \<Longrightarrow> Suc (count_sep q) \<le> count_sep x"
proof (induction c arbitrary: q)
  case (FileNode n)
  then show ?case by (simp split: if_splits)
next
  case (DirNode n cs)
  let ?q = "path_join q n"
  from DirNode.prems have cs: "\<forall>c \<in> set cs. wf_node c" and q': "open_path ?q"
    and cq: "count_sep ?q = Suc (count_sep q)" by auto
  show ?case
  proof (cases "x = ?q")
    case True
    with cq show ?thesis by simp
  next
    case False
    with DirNode.prems(3) obtain c where c: "c \<in> set cs" and x: "x \<in> set (entries ?q c)" by auto
    from DirNode.IH [OF c] cs c q' x have "Suc (count_sep ?q) \<le> count_sep x" by blast
    with cq show ?thesis by simp
  qed
qed

lemma forest_children:
  assumes "\<forall>c \<in> set cs. wf_node c" and "open_path q"
  shows "{x \<in> set (forest_entries q cs). count_sep x = Suc (count_sep q)} =
         set (map (path_join q) (filter (\<lambda>f. hd f \<noteq> CHR ''.'') (file_names cs)) @ map (path_join q) (dir_names cs))"
  using assms
proof (induction cs rule: file_names.induct)
  case 1
  then show ?case by simp
next
  case (2 n cs)
  then show ?case by auto
next
  case (3 n ds cs)
  let ?q = "path_join q n"
  from "3.prems" have ds: "\<forall>c \<in> set ds. wf_node c" and q': "open_path ?q"
    and cq: "count_sep ?q = Suc (count_sep q)" by auto
  have deep: "count_sep x \<noteq> Suc (count_sep q)" if "x \<in> set (forest_entries ?q ds)" for x
  proof -
    from that obtain c where "c \<in> set ds" "x \<in> set (entries ?q c)" by (auto simp: forest_entries_def)
    with ds q' entries_deeper have "Suc (count_sep ?q) \<le> count_sep x" by blast
    with cq show ?thesis by simp
  qed
  have "entries q (DirNode n ds) = ?q # forest_entries ?q ds" by (simp add: forest_entries_def)
  with "3.IH" "3.prems" cq deep show ?case by auto
qed


lemma walk_children_union:
  assumes "walk_children m q cs = Inr zs"
    and "\<And>c ys. c \<in> set cs \<Longrightarrow> walk_node m q c = Inr ys \<Longrightarrow> set ys = {x \<in> set (entries q c). K x}"
  shows "set zs = {x \<in> set (forest_entries q cs). K x}"
  using assms
proof (induction cs arbitrary: zs)
  case Nil
  then show ?case by simp
next
  case (Cons c cs)
  from Cons.prems(1) obtain xs zs' where "walk_node m q c = Inr xs"
    and "walk_children m q cs = Inr zs'" and "zs = xs @ zs'"
    by (auto simp only: walk_children_Inr)
  with Cons.IH [of zs'] Cons.prems(2) [of c xs] Cons.prems(2) show ?case by auto
qed

text \<open>The entries strictly below one child \<open>c\<close> of \<open>q\<close> that the walk lists.\<close>

lemma walk_node_set:
  "wf_node c \<Longrightarrow> open_path q \<Longrightarrow> walk_node m q c = Inr ys \<Longrightarrow>
     set ys = {x \<in> set (entries q c). count_sep q + 2 \<le> count_sep x \<and>
                 (count_sep x = count_sep q + 2 \<or> int (count_sep x) \<le> m + 1)}"
proof (induction c arbitrary: q ys)
  case (FileNode n)
  then show ?case by (auto split: if_splits)
next
  case (DirNode n cs)
  let ?q = "path_join q n"
  let ?F = "set (forest_entries ?q cs)"
  from DirNode.prems have cs: "\<forall>c \<in> set cs. wf_node c" and q': "open_path ?q"
    and cq: "count_sep ?q = Suc (count_sep q)" by auto
  have deep: "Suc (count_sep ?q) \<le> count_sep x" if "x \<in> ?F" for x
  proof -
    from that obtain c where "c \<in> set cs" "x \<in> set (entries ?q c)" by (auto simp: forest_entries_def)
    with cs q' entries_deeper show ?thesis by blast
  qed
  from DirNode.prems(3) obtain xs where xs: "dir_listing ?q cs = Inr xs"
    and ys: "if int (count_sep ?q) \<ge> m then ys = xs
             else \<exists>zs. walk_children m ?q cs = Inr zs \<and> ys = xs @ zs"
    using visit_dir_cases by fastforce
  have lx: "set xs = {x \<in> ?F. count_sep x = Suc (count_sep ?q)}"
  proof -
    from xs have "xs = map (path_join ?q) (filter (\<lambda>f. hd f \<noteq> CHR ''.'') (file_names cs))
                     @ map (path_join ?q) (dir_names cs)"
      by (simp add: dir_listing_ok [OF cs])
    then show ?thesis by (simp only: forest_children [OF cs q'])
  qed
  have lz: "set zs = {x \<in> ?F. count_sep ?q + 2 \<le> count_sep x \<and>
                      (count_sep x = count_sep ?q + 2 \<or> int (count_sep x) \<le> m + 1)}"
    if "walk_children m ?q cs = Inr zs" for zs
    using that
  proof (rule walk_children_union)
    fix c ys' assume "c \<in> set cs" "walk_node m ?q c = Inr ys'"
    with cs q' show "set ys' = {x \<in> set (entries ?q c). count_sep ?q + 2 \<le> count_sep x \<and>
                        (count_sep x = count_sep ?q + 2 \<or> int (count_sep x) \<le> m + 1)}"
      by (intro DirNode.IH) auto
  qed
  have target: "{x \<in> set (entries q (DirNode n cs)). count_sep q + 2 \<le> count_sep x \<and>
                  (count_sep x = count_sep q + 2 \<or> int (count_sep x) \<le> m + 1)} =
                {x \<in> ?F. count_sep x = Suc (count_sep ?q) \<or> int (count_sep x) \<le> m + 1}"
    using deep cq by (auto simp: forest_entries_def)
  show ?case
  proof (cases "int (count_sep ?q) \<ge> m")
    case True
    with ys lx have "set ys = {x \<in> ?F. count_sep x = Suc (count_sep ?q)}" by simp
    also have "\<dots> = {x \<in> ?F. count_sep x = Suc (count_sep ?q) \<or> int (count_sep x) \<le> m + 1}"
      using True deep by force
    finally show ?thesis using target by simp
  next
    case False
    with ys obtain zs where zs: "walk_children m ?q cs = Inr zs" and y: "ys = xs @ zs" by auto
    have "set ys = {x \<in> ?F. count_sep x = Suc (count_sep ?q)} \<union>
                   {x \<in> ?F. count_sep ?q + 2 \<le> count_sep x \<and>
                      (count_sep x = count_sep ?q + 2 \<or> int (count_sep x) \<le> m + 1)}"
      using lx lz [OF zs] y by simp
    also have "\<dots> = {x \<in> ?F. count_sep x = Suc (count_sep ?q) \<or> int (count_sep x) \<le> m + 1}"
      using False deep by force
    finally show ?thesis using target by simp
  qed
qed

text \<open>
  C23: on a well-formed tree, \<open>folder_analyze\<close> lists exactly the entries the filter
  keeps that are direct children of the watched folder or whose absolute path has at
  most \<open>subfolders_max_number + 1\<close> separators. The depth limit counts separators
  from the file-system root, not from the watched folder as the spec says.
\<close>

theorem folder_analyze_listing:
  assumes cs: "\<forall>c \<in> set cs. wf_node c" and r: "open_path root"
    and fa: "folder_analyze root cs m = Inr ys"
  shows "set ys = {x \<in> set (forest_entries root cs).
                     count_sep x = Suc (count_sep root) \<or> int (count_sep x) \<le> m + 1}"
proof -
  let ?F = "set (forest_entries root cs)"
  have deep: "Suc (count_sep root) \<le> count_sep x" if "x \<in> ?F" for x
  proof -
    from that obtain c where "c \<in> set cs" "x \<in> set (entries root c)" by (auto simp: forest_entries_def)
    with cs r entries_deeper show ?thesis by blast
  qed
  from fa obtain xs where xs: "dir_listing root cs = Inr xs"
    and ys: "if int (count_sep root) \<ge> m then ys = xs
             else \<exists>zs. walk_children m root cs = Inr zs \<and> ys = xs @ zs"
    unfolding folder_analyze_def using visit_dir_cases by fastforce
  have lx: "set xs = {x \<in> ?F. count_sep x = Suc (count_sep root)}"
  proof -
    from xs have "xs = map (path_join root) (filter (\<lambda>f. hd f \<noteq> CHR ''.'') (file_names cs))
                     @ map (path_join root) (dir_names cs)"
      by (simp add: dir_listing_ok [OF cs])
    then show ?thesis by (simp only: forest_children [OF cs r])
  qed
  show ?thesis
  proof (cases "int (count_sep root) \<ge> m")
    case True
    with ys lx deep show ?thesis by force
  next
    case False
    with ys obtain zs where zs: "walk_children m root cs = Inr zs" and y: "ys = xs @ zs" by auto
    have lz: "set zs = {x \<in> ?F. count_sep root + 2 \<le> count_sep x \<and>
                        (count_sep x = count_sep root + 2 \<or> int (count_sep x) \<le> m + 1)}"
      using zs
    proof (rule walk_children_union)
      fix c ys' assume "c \<in> set cs" "walk_node m root c = Inr ys'"
      with cs r show "set ys' = {x \<in> set (entries root c). count_sep root + 2 \<le> count_sep x \<and>
                        (count_sep x = count_sep root + 2 \<or> int (count_sep x) \<le> m + 1)}"
        by (intro walk_node_set) auto
    qed
    from lx lz y False deep show ?thesis by force
  qed
qed

end
