(* ===== verification/Spec2Isabelle.thy ===== *)
theory Spec2Isabelle
  imports Replay Events Scan_Spec
begin

text \<open>
  \<^bold>\<open>A verified model of the folder watcher \<open>src/Watch.py\<close>.\<close>

  \<^emph>\<open>The program.\<close> \<open>main_function\<close> parses its arguments, checks the log file and
  the watched folder (asking again on standard input while they do not exist), clamps
  the depth to 0..10 and the period to 1..3600, and then loops forever: it lists the
  folder with \<open>folder_analyze\<close> (\<open>os.walk\<close>, hidden files skipped, descent cut by
  the number of separators in the path), and hands the list to the one \<open>FileList\<close>
  object, which keeps the \<open>File\<close> objects it has seen (path and \<open>os.stat\<close> result)
  and writes one log line per change through \<open>log\<close>. The first listing goes to
  \<open>add_list(..., True)\<close> (one \<open>found\<close> line per path), every later one to
  \<open>compare\<close>, which logs \<open>added\<close>, \<open>modified\<close> and \<open>removed\<close> lines and updates
  the list.

  \<^emph>\<open>The theories.\<close>
  \<^item> \<open>Prelude\<close>: Python's exceptions (\<open>py_error\<close>), the result of a call that may
    raise after changing state (\<open>'s result\<close>: \<open>Inl\<close> the exception with the state at
    the raise, \<open>Inr\<close> the final state; \<open>then_r\<close> sequences two calls), \<open>os.stat\<close>
    as a partial function \<open>'a stat_fn\<close> from paths to attributes (\<open>os_stat\<close> raises
    \<open>FileNotFoundError\<close> where it is \<open>None\<close>), and \<open>list.remove\<close> at a position
    (\<open>del_at\<close>).
  \<^item> \<open>Log\<close> models \<open>log\<close> (lines 13--33): \<open>log_message\<close> is the formatted message
    for a date string, \<open>log\<close> appends the (path, kind) event to the trace, and
    \<open>parse_message\<close> reads a message back.
  \<^item> \<open>Files\<close> models \<open>File\<close> (lines 113--144) and \<open>FileList\<close>'s constructor,
    \<open>length\<close>, \<open>add\<close>, \<open>add_list\<close> (lines 36--79). The class attribute
    \<open>FileList.list\<close> is shared by all instances, so it lives in the \<open>world\<close> record
    (\<open>FileList_list\<close>) next to the logged events; the instance record \<open>FileList\<close>
    holds \<open>debug\<close> and \<open>log_file\<close>.
  \<^item> \<open>Compare\<close> models \<open>compare\<close> (lines 81--110): \<open>find_match\<close> is the inner
    search loop, \<open>compare_file\<close> one iteration of the first pass, \<open>compare_files\<close> the
    first pass, \<open>remove_loop\<close> the removal loop with CPython's iterator position
    explicit, \<open>FileList_compare\<close> the method, including the dead \<open>self.length == 0\<close>
    branch (\<open>bound_method_equals_int\<close>).
  \<^item> \<open>Scanner\<close> models \<open>folder_analyze\<close> (lines 173--196). The folder is a
    tree of \<open>node\<close>s (files and directories with their children in directory order);
    \<open>walk_node\<close>/\<open>walk_children\<close> visit it in \<open>os.walk\<close>'s top-down order,
    \<open>dir_listing\<close> is one iteration of the \<open>for\<close> loop (\<open>visible_files\<close> is the
    \<open>f[0] is not "."\<close> filter, raising \<open>IndexError\<close> on an empty name;
    \<open>path_join\<close> is \<open>posixpath.join\<close>), and \<open>visit_dir\<close> cuts the descent with
    \<open>del dirs[:]\<close> when the path has \<open>count_sep p \<ge> subfolders_max_number\<close>.
  \<^item> \<open>Scan_Spec\<close> describes what the scanner lists declaratively: \<open>entries\<close>
    and \<open>forest_entries\<close> collect every entry the hidden-file filter keeps.
  \<^item> \<open>Watcher\<close> models \<open>main_function\<close> and the prompts (lines 147--238):
    \<open>ask_folder_location\<close>/\<open>ask_log_file_location\<close> over standard input as a list
    of lines (\<open>EOFError\<close> at its end), \<open>setup_args\<close> for the checks of the log
    file and the folder with \<open>clamp_depth\<close>/\<open>clamp_frequency\<close>, and the loop:
    \<open>initial_crawl\<close> (line 236), \<open>watch_cycle\<close> (one pass, lines 237--238),
    \<open>watch_run\<close> (passes through a sequence of folder states) and the reachable
    states \<open>watch_reach\<close> (an inductive relation, the folder free to change
    between passes). An uncaught exception ends the program: \<open>Stopped\<close>.
    \<open>main_function\<close> composes them: set-up, \<open>FileList_init\<close>, first crawl and
    the passes over a given sequence of folder states.
  \<^item> \<open>Snapshot\<close> states the contract of a diff abstractly: the list read as a
    map from paths to attributes (\<open>snapshot\<close>) should become \<open>st |` set fl\<close>,
    the current attributes of the listed paths.
  \<^item> \<open>Events\<close> describes the events of one \<open>compare\<close> call path by path
    (\<open>path_events\<close>, \<open>pass_events\<close>) against the spec's completeness property.
  \<^item> \<open>Replay\<close> reads the log as its reader would (\<open>replay\<close>: added, found and
    modified put a path in, removed takes it out).
  \<^item> This theory: the spec's scenarios and the findings at concrete inputs, and a
    witness for every property, on the fixture folder \<open>tree0\<close> at \<open>/data\<close>.

  \<^emph>\<open>Modelling choices.\<close> Paths are HOL strings. Attributes (\<open>os.stat_result\<close>) are
  a type variable compared with \<open>=\<close>, as the code compares them with \<open>==\<close>. During
  one method call the file system is fixed (\<open>'a stat_fn\<close>): the model covers a path
  that vanished between the listing and the \<open>stat\<close>, not one that changes between two
  \<open>stat\<close> calls of the same method. Python's list iterator is a position that moves by
  one after every element, and \<open>list.remove(f)\<close> deletes that position: each
  \<open>File\<close> object is appended once and \<open>File\<close> has no \<open>__eq__\<close>. The date of a
  log line is a parameter of \<open>log_message\<close>; the event trace \<open>logged\<close> leaves it out.
  There is no loop that needs fuel: every loop of the modelled methods runs over a finite
  list or a finite tree, \<open>remove_loop\<close> terminates by the measure (length of the list
  minus the position), and the prompts consume one input line per iteration. The
  \<open>while True\<close> loop never ends by design; it is modelled by finite runs
  (\<open>watch_run\<close>) and by the reachable states (\<open>watch_reach\<close>), and its progress
  by the number of passes needed to converge.

  \<^emph>\<open>What is proved.\<close>
  \<^item> \<open>compare\<close> equals its first pass followed by a reference \<open>sweep\<close> that
    removes each unlisted entry unless the entry before it was just removed
    (\<open>FileList_compare_sweep\<close>). As a consequence, after \<open>compare\<close> the tracked
    paths equal the listed ones exactly when no two neighbouring tracked entries vanished
    together (\<open>FileList_compare_converges_iff\<close>); otherwise a vanished path stays
    tracked and is reported one cycle late (\<open>consecutive_removal_missed\<close>).
  \<^item> In every reachable state of the program no path is tracked twice
    (\<open>watch_reach_distinct\<close>): the scanner lists each path once
    (\<open>folder_analyze_distinct\<close>), \<open>add_list\<close> and \<open>compare\<close> keep the list
    distinct on both branches. After \<open>compare\<close> every listed path is tracked and no
    path is invented (\<open>FileList_compare_tracked\<close>).
  \<^item> When the folder stops changing, the loop converges: each pass removes at least one
    stale entry (\<open>compare_stale_decreases\<close>), so \<open>max 1 k\<close> passes suffice for
    \<open>k\<close> stale entries, after which the list holds exactly the listed paths with
    their current attributes (\<open>watch_run_converges\<close>).
  \<^item> The whole program on an unchanged folder: whatever the number of passes,
    \<open>main_function\<close> ends in the state of its first crawl, one \<open>found\<close> line per
    path and no later event (\<open>main_function_stable_folder\<close>).
  \<^item> Refinement: \<open>compare\<close> meets the map-level contract exactly when no two
    neighbouring entries vanished together (\<open>FileList_compare_snapshot\<close>); the first
    crawl always meets it (the lemma \<open>FileList_add_list_snapshot\<close>); on an empty list the dead
    \<open>self.length == 0\<close> branch makes no difference for distinct stat-able listings
    (\<open>FileList_compare_empty\<close>), paths are logged as added. A list that already
    meets the contract is a fixed point: \<open>compare\<close> on an unchanged folder changes
    and logs nothing (\<open>FileList_compare_fixpoint\<close>).
  \<^item> Completeness of one diff (\<open>FileList_compare_events\<close>): each path is reported
    at most once; \<open>added\<close> exactly for the new paths, \<open>modified\<close> exactly for the
    changed ones, \<open>removed\<close> only for vanished ones and for all of them exactly when no
    two neighbouring entries vanished together. The set of events and the tracked
    paths do not depend on the order of the listing
    (\<open>FileList_compare_order_independent\<close>).
  \<^item> The log is a faithful record: in every running reachable state, replaying the log
    gives exactly the tracked paths (\<open>watch_reach_log_replay\<close>); a missed removal is
    also logged late, so the two stay in step. After an exception they differ by at most
    the vanished path, which was logged as added and never tracked
    (\<open>watch_reach_stopped_log\<close>, \<open>vanished_path_raises\<close>).
  \<^item> The scanner: every returned path is at most one separator deeper than the larger
    of the limit and the start folder (\<open>folder_analyze_depth_bound\<close>), the absolute
    depth being the code's, not the spec's relative one; its listing starts with the
    start folder's visible files and subfolders (\<open>folder_analyze_top_listing\<close>);
    every path lies inside the watched
    folder (\<open>folder_analyze_inside\<close>); and the listing is exactly the kept
    entries that are direct children of the folder or have at most
    \<open>subfolders_max_number + 1\<close> separators in their absolute path
    (\<open>folder_analyze_listing\<close>).
  \<^item> The prompts return the first existing path and leave the rest of the input
    (\<open>ask_folder_location_first\<close>), or raise \<open>EOFError\<close>
    (\<open>ask_folder_location_EOF\<close>); after the set-up the folder exists, the log file
    exists or was creatable, and depth and frequency are in range
    (\<open>setup_args_checked\<close>).
  \<^item> \<open>compare\<close> raises exactly when a listed path cannot be stat-ed
    (\<open>FileList_compare_Inl_iff\<close>); the first such path raises
    \<open>FileNotFoundError\<close> and, if it was not tracked, is logged as added just before,
    where the spec expects it to be skipped (\<open>FileList_compare_first_vanished\<close>).
  \<^item> The first crawl tracks the listing and logs \<open>found\<close> for each path
    (\<open>FileList_add_list_initial\<close>); log messages read back to their path and option
    (\<open>log_message_roundtrip\<close>). The spec's scenarios and the two findings on
    \<open>compare\<close> are also checked at concrete inputs in this theory
    (\<open>spec_scenarios\<close>, \<open>consecutive_removal_missed\<close>, \<open>vanished_path_raises\<close>).
  \<^item> \<open>watch_reach_distinct\<close>, \<open>watch_reach_log_replay\<close> and
    \<open>watch_reach_stopped_log\<close> assume the folder path is non-empty and has no
    trailing separator (\<open>open_path\<close>), which the scanner's distinctness proof uses.

  \<^emph>\<open>Not modelled.\<close> \<open>argparse\<close> (the parsed namespace is the \<open>args\<close>
  record), \<open>logging.basicConfig\<close>'s file handler (the log is the event trace and
  \<open>log_line\<close>), \<open>time.sleep\<close> (no effect on the state), the debug \<open>print\<close>s,
  and symbolic links and permission errors of \<open>os.walk\<close> (the tree is what
  \<open>os.walk\<close> sees). A folder that changes during one pass, between the walk and
  the \<open>stat\<close>s, is covered only as a listed path that cannot be stat-ed.
\<close>

section \<open>Fixtures\<close>

abbreviation file_at :: "string \<Rightarrow> nat \<Rightarrow> nat File" where
  "file_at p a \<equiv> \<lparr>path = p, attributes = a\<rparr>"

abbreviation world_of :: "nat File list \<Rightarrow> event list \<Rightarrow> nat world" where
  "world_of fs evs \<equiv> \<lparr>FileList_list = fs, logged = evs\<rparr>"

abbreviation tree0 :: "node list" where
  "tree0 \<equiv> [FileNode ''a.txt'', FileNode ''.h'', DirNode ''sub'' [FileNode ''b.txt'']]"

abbreviation stat0 :: "nat stat_fn" where
  "stat0 \<equiv> [''/data/a.txt'' \<mapsto> 1, ''/data/sub'' \<mapsto> 2, ''/data/sub/b.txt'' \<mapsto> 3]"

abbreviation args0 :: args where
  "args0 \<equiv> \<lparr>folder_location = ''/data'', log_file_location = ''/data.log'', new_log_file = False,
            args_debug = False, depth = 5, frequency = 15\<rparr>"

abbreviation crawled0 :: "nat world" where
  "crawled0 \<equiv> world_of [file_at ''/data/a.txt'' 1, file_at ''/data/sub'' 2, file_at ''/data/sub/b.txt'' 3]
                 [(''/data/a.txt'', Found), (''/data/sub'', Found), (''/data/sub/b.txt'', Found)]"

lemma tree0_wf: "wf_tree tree0"
  by (simp add: wf_tree_def wf_entries_def name_ok_def)

lemma tree0_nodes: "\<forall>c \<in> set tree0. wf_node c"
  by (simp add: name_ok_def wf_entries_def)

lemma data_open: "open_path ''/data''"
  by (simp add: open_path_def)

lemma tree0_listing:
  "folder_analyze ''/data'' tree0 5 = Inr [''/data/a.txt'', ''/data/sub'', ''/data/sub/b.txt'']"
  by (simp add: watch_simps)

lemma crawl0: "initial_crawl args0 tree0 stat0 start_world = Inr crawled0"
  by (simp add: watch_simps)

lemma main0:
  "main_function (\<lambda>p. p \<in> {''/data'', ''/data.log''}) (\<lambda>p. False) args0 [] (tree0, stat0)
     (replicate 2 (tree0, stat0)) =
   Running args0 (FileList_init False ''/data.log'') (Watching crawled0)"
  by (simp add: main_function_def setup_args_def clamp_depth_def clamp_frequency_def numeral_2_eq_2
      watch_simps)

lemma reach_crawled0: "watch_reach args0 (Watching crawled0)"
proof -
  have "watch_reach args0 (state_of (initial_crawl args0 tree0 stat0 start_world))"
    using tree0_wf by (rule watch_reach.start)
  then show ?thesis by (simp only: crawl0 state_of_simps)
qed

section \<open>The spec's scenarios and the findings\<close>

text \<open>
  Two neighbouring tracked paths vanish in the same cycle. \<open>compare\<close> removes the
  first, the iterator then skips the second: \<open>/a/2\<close> stays tracked although it is not
  listed, and no \<open>removed\<close> line is written for it in this cycle.
\<close>

lemma consecutive_removal_missed:
  "FileList_compare [''/a/3'' \<mapsto> 3] [''/a/3'']
     (world_of [file_at ''/a/1'' 1, file_at ''/a/2'' 2, file_at ''/a/3'' 3] []) =
   Inr (world_of [file_at ''/a/2'' 2, file_at ''/a/3'' 3] [(''/a/1'', Removed)])
   \<and> ''/a/2'' \<notin> set [''/a/3'']"
  by (simp add: watch_simps)

text \<open>
  The spec's scenario 4. A listed path that vanished before \<open>compare\<close> stats it:
  the code logs \<open>/a/4.txt was added.\<close> and then \<open>os.stat\<close> raises
  \<open>FileNotFoundError\<close>, which nothing catches; the spec says the path is skipped
  without an event.
\<close>

lemma vanished_path_raises:
  "FileList_compare [''/a/1.txt'' \<mapsto> 1] [''/a/1.txt'', ''/a/4.txt'']
     (world_of [file_at ''/a/1.txt'' 1] []) =
   Inl (FileNotFoundError ''/a/4.txt'', world_of [file_at ''/a/1.txt'' 1] [(''/a/4.txt'', Added)])"
  by (simp add: watch_simps)

text \<open>
  The spec's scenarios 1 to 3: the first crawl finds two files; the next cycle sees
  one removed and one created; the one after sees one modified.
\<close>

lemma spec_scenarios:
  "FileList_add_list [''/a/1.txt'' \<mapsto> 1, ''/a/2.txt'' \<mapsto> 2] [''/a/1.txt'', ''/a/2.txt''] True
     (world_of [] []) =
   Inr (world_of [file_at ''/a/1.txt'' 1, file_at ''/a/2.txt'' 2]
          [(''/a/1.txt'', Found), (''/a/2.txt'', Found)])
   \<and> FileList_compare [''/a/1.txt'' \<mapsto> 1, ''/a/3.txt'' \<mapsto> 3] [''/a/1.txt'', ''/a/3.txt'']
       (world_of [file_at ''/a/1.txt'' 1, file_at ''/a/2.txt'' 2] []) =
     Inr (world_of [file_at ''/a/1.txt'' 1, file_at ''/a/3.txt'' 3]
          [(''/a/3.txt'', Added), (''/a/2.txt'', Removed)])
   \<and> FileList_compare [''/a/1.txt'' \<mapsto> 5, ''/a/3.txt'' \<mapsto> 3] [''/a/1.txt'', ''/a/3.txt'']
       (world_of [file_at ''/a/1.txt'' 1, file_at ''/a/3.txt'' 3] []) =
     Inr (world_of [file_at ''/a/1.txt'' 5, file_at ''/a/3.txt'' 3] [(''/a/1.txt'', Modified)])"
  by (simp add: watch_simps)

section \<open>Witnesses\<close>

theorem FileList_compare_sweep_witness:
  "FileList_compare [''/a/3'' \<mapsto> (3::nat)] [''/a/3'']
     (world_of [file_at ''/a/1'' 1, file_at ''/a/2'' 2, file_at ''/a/3'' 3] []) =
   Inr (world_of [file_at ''/a/2'' 2, file_at ''/a/3'' 3] [(''/a/1'', Removed)])"
  using FileList_compare_sweep [of "[''/a/3'' \<mapsto> (3::nat)]" "[''/a/3'']"
      "world_of [file_at ''/a/1'' 1, file_at ''/a/2'' 2, file_at ''/a/3'' 3] []"]
  by (simp add: compare_eval)

theorem FileList_compare_converges_iff_witness:
  "tracked (world_of [file_at ''/a/2'' 2, file_at ''/a/3'' 3] [(''/a/1'', Removed)]) \<noteq> set [''/a/3'']
   \<and> adjacent_stale [''/a/3''] [''/a/1'', ''/a/2'', ''/a/3'']"
proof -
  have h: "FileList_compare [''/a/3'' \<mapsto> 3] [''/a/3'']
     (world_of [file_at ''/a/1'' 1, file_at ''/a/2'' 2, file_at ''/a/3'' 3] []) =
   Inr (world_of [file_at ''/a/2'' 2, file_at ''/a/3'' 3] [(''/a/1'', Removed)])"
    by (simp add: watch_simps)
  show ?thesis using FileList_compare_converges_iff [OF h] by simp
qed

theorem FileList_compare_Inl_iff_witness:
  "\<exists>es. FileList_compare [''/a/1'' \<mapsto> (1::nat)] [''/a/1'', ''/a/5'']
          (world_of [file_at ''/a/1'' 1] []) = Inl es"
  using FileList_compare_Inl_iff [of "[''/a/1'' \<mapsto> (1::nat)]" "[''/a/1'', ''/a/5'']"
      "world_of [file_at ''/a/1'' 1] []"]
  by simp

theorem FileList_compare_tracked_witness:
  "set [''/a/1'', ''/a/3''] \<subseteq> tracked (world_of [file_at ''/a/1'' 1, file_at ''/a/3'' 3]
                                          [(''/a/3'', Added), (''/a/2'', Removed)])"
proof -
  have h: "FileList_compare [''/a/1'' \<mapsto> 1, ''/a/3'' \<mapsto> 3] [''/a/1'', ''/a/3'']
       (world_of [file_at ''/a/1'' 1, file_at ''/a/2'' 2] []) =
     Inr (world_of [file_at ''/a/1'' 1, file_at ''/a/3'' 3]
          [(''/a/3'', Added), (''/a/2'', Removed)])"
    by (simp add: watch_simps)
  show ?thesis using FileList_compare_tracked [OF h] by blast
qed

theorem FileList_add_list_initial_witness:
  "\<exists>w'. FileList_add_list [''/a/1.txt'' \<mapsto> (1::nat), ''/a/2.txt'' \<mapsto> 2]
          [''/a/1.txt'', ''/a/2.txt''] True (world_of [] []) = Inr w' \<and> FileList_length w' = 2"
proof -
  have h1: "FileList_list (world_of [] []) = []" by simp
  have h2: "\<forall>p \<in> set [''/a/1.txt'', ''/a/2.txt'']. [''/a/1.txt'' \<mapsto> (1::nat), ''/a/2.txt'' \<mapsto> 2] p \<noteq> None"
    by simp
  show ?thesis using FileList_add_list_initial [OF h1 h2] by auto
qed

theorem log_message_roundtrip_witness:
  "parse_message ''2024-01-01 10:00:00'' ''2024-01-01 10:00:00 /a/1.txt was added.'' =
     Some (''/a/1.txt'', 1)"
proof -
  have h: "log_message ''2024-01-01 10:00:00'' ''/a/1.txt'' 1 =
             Some ''2024-01-01 10:00:00 /a/1.txt was added.''"
    by (simp add: log_message_def)
  show ?thesis using log_message_roundtrip [OF h] .
qed

theorem watch_reach_distinct_witness:
  "watch_reach args0 (state_of (initial_crawl args0 tree0 stat0 start_world)) \<and>
   distinct (map path (FileList_list (world_of_state (state_of (initial_crawl args0 tree0 stat0 start_world)))))"
proof -
  have r: "watch_reach args0 (state_of (initial_crawl args0 tree0 stat0 start_world))"
    using tree0_wf by (rule watch_reach.start)
  have h: "open_path (folder_location args0)" using data_open by simp
  show ?thesis using r watch_reach_distinct [OF h r] by simp
qed

theorem folder_analyze_depth_bound_witness:
  "count_sep ''/data/sub/b.txt'' \<le> Suc (max (nat 5) (count_sep ''/data''))"
  using folder_analyze_depth_bound [OF tree0_nodes data_open tree0_listing] by simp

theorem folder_analyze_top_listing_witness:
  "\<exists>zs. folder_analyze ''/data'' tree0 5 = Inr ([''/data/a.txt''] @ [''/data/sub''] @ zs)"
  using folder_analyze_top_listing [OF tree0_nodes, of "''/data''" 5] by (simp add: path_join_def)

theorem ask_folder_location_first_witness:
  "\<exists>pre. [''/nope'', ''/data'', ''/x''] = pre @ [''/data'', ''/x''] \<and> list_all (\<lambda>y. y \<noteq> ''/data'') pre"
proof -
  have h: "ask_folder_location (\<lambda>p. p = ''/data'') [''/nope'', ''/data'', ''/x''] = Inr (''/data'', [''/x''])"
    by (simp add: ask_folder_location_def)
  show ?thesis using ask_folder_location_first [THEN iffD1, OF h] by (auto simp: list_all_iff)
qed

theorem ask_folder_location_EOF_witness:
  "ask_folder_location (\<lambda>p. p = ''/data'') [''/nope'', ''/x''] = Inl EOFError"
  using ask_folder_location_EOF [of "\<lambda>p. p = ''/data''" "[''/nope'', ''/x'']" EOFError] by simp

theorem setup_args_checked_witness:
  "depth args0 = clamp_depth 42 \<and> 0 \<le> depth args0 \<and> depth args0 \<le> 10"
proof -
  have h: "setup_args (\<lambda>p. p \<in> {''/data'', ''/data.log''}) (\<lambda>p. False)
             (args0\<lparr>folder_location := ''/missing'', depth := 42\<rparr>) [''/nope'', ''/data'', ''/x''] =
           Inr (args0, [''/x''])"
    by (simp add: setup_args_def ask_folder_location_def clamp_depth_def clamp_frequency_def)
  show ?thesis using setup_args_checked [OF h] by simp
qed

theorem watch_run_converges_witness:
  "\<exists>w'. watch_run args0 (replicate 1 (tree0, stat0))
          (world_of [file_at ''/data/old'' 7, file_at ''/data/a.txt'' 1] []) = Inr w' \<and>
        tracked w' = set [''/data/a.txt'', ''/data/sub'', ''/data/sub/b.txt''] \<and>
        snapshot w' = stat0 |` set [''/data/a.txt'', ''/data/sub'', ''/data/sub/b.txt'']"
proof -
  have fa: "folder_analyze (folder_location args0) tree0 (depth args0) =
              Inr [''/data/a.txt'', ''/data/sub'', ''/data/sub/b.txt'']"
    using tree0_listing by simp
  have ok: "\<forall>p \<in> set [''/data/a.txt'', ''/data/sub'', ''/data/sub/b.txt'']. stat0 p \<noteq> None" by simp
  have d: "distinct (map path (FileList_list (world_of [file_at ''/data/old'' 7, file_at ''/data/a.txt'' 1] [])))"
    by simp
  have n: "stale_count [''/data/a.txt'', ''/data/sub'', ''/data/sub/b.txt'']
             (world_of [file_at ''/data/old'' 7, file_at ''/data/a.txt'' 1] []) \<le> 1"
    by (simp add: stale_count_def)
  show ?thesis using watch_run_converges [OF fa ok d zero_less_one n] .
qed

theorem FileList_compare_snapshot_witness:
  "snapshot (world_of [file_at ''/a/1.txt'' 1, file_at ''/a/3.txt'' 3]
               [(''/a/3.txt'', Added), (''/a/2.txt'', Removed)]) =
   [''/a/1.txt'' \<mapsto> 1, ''/a/3.txt'' \<mapsto> 3] |` set [''/a/1.txt'', ''/a/3.txt'']"
proof -
  have d: "distinct (map path (FileList_list (world_of [file_at ''/a/1.txt'' 1, file_at ''/a/2.txt'' 2] [])))"
    by simp
  have h: "FileList_compare [''/a/1.txt'' \<mapsto> 1, ''/a/3.txt'' \<mapsto> 3] [''/a/1.txt'', ''/a/3.txt'']
       (world_of [file_at ''/a/1.txt'' 1, file_at ''/a/2.txt'' 2] []) =
     Inr (world_of [file_at ''/a/1.txt'' 1, file_at ''/a/3.txt'' 3]
          [(''/a/3.txt'', Added), (''/a/2.txt'', Removed)])"
    by (simp add: watch_simps)
  show ?thesis using FileList_compare_snapshot [OF d h] by simp
qed

theorem FileList_compare_empty_witness:
  "FileList_compare [''/a/1.txt'' \<mapsto> (1::nat), ''/a/2.txt'' \<mapsto> 2] [''/a/1.txt'', ''/a/2.txt''] (world_of [] []) =
   FileList_add_list [''/a/1.txt'' \<mapsto> 1, ''/a/2.txt'' \<mapsto> 2] [''/a/1.txt'', ''/a/2.txt''] False (world_of [] [])"
proof -
  have e: "FileList_list (world_of [] []) = ([] :: nat File list)" by simp
  have d: "distinct [''/a/1.txt'', ''/a/2.txt'']" by simp
  have ok: "\<forall>p \<in> set [''/a/1.txt'', ''/a/2.txt'']. [''/a/1.txt'' \<mapsto> (1::nat), ''/a/2.txt'' \<mapsto> 2] p \<noteq> None"
    by simp
  show ?thesis using FileList_compare_empty [OF e d ok] .
qed

theorem watch_reach_log_replay_witness: "replay (logged crawled0) = tracked crawled0"
proof -
  have h: "open_path (folder_location args0)" using data_open by simp
  show ?thesis using watch_reach_log_replay [OF h reach_crawled0] .
qed

theorem folder_analyze_inside_witness:
  "\<exists>k r. name_ok k \<and> (''/data/sub/b.txt'' = ''/data'' @ ''/'' @ k \<or> ''/data/sub/b.txt'' = ''/data'' @ ''/'' @ k @ ''/'' @ r)"
  using folder_analyze_inside [OF tree0_nodes data_open tree0_listing] by simp

theorem FileList_compare_fixpoint_witness:
  "FileList_compare [''/a/1.txt'' \<mapsto> (1::nat), ''/a/3.txt'' \<mapsto> 3] [''/a/1.txt'', ''/a/3.txt'']
     (world_of [file_at ''/a/1.txt'' 1, file_at ''/a/3.txt'' 3] [(''/a/3.txt'', Added)]) =
   Inr (world_of [file_at ''/a/1.txt'' 1, file_at ''/a/3.txt'' 3] [(''/a/3.txt'', Added)])"
proof -
  have d: "distinct (map path (FileList_list (world_of [file_at ''/a/1.txt'' 1, file_at ''/a/3.txt'' 3]
                                               [(''/a/3.txt'', Added)])))"
    by simp
  have s: "snapshot (world_of [file_at ''/a/1.txt'' 1, file_at ''/a/3.txt'' 3] [(''/a/3.txt'', Added)]) =
           [''/a/1.txt'' \<mapsto> (1::nat), ''/a/3.txt'' \<mapsto> 3] |` set [''/a/1.txt'', ''/a/3.txt'']"
    by (rule ext) (simp add: snapshot_def restrict_map_def)
  have ok: "\<forall>p \<in> set [''/a/1.txt'', ''/a/3.txt'']. [''/a/1.txt'' \<mapsto> (1::nat), ''/a/3.txt'' \<mapsto> 3] p \<noteq> None"
    by simp
  show ?thesis using FileList_compare_fixpoint [OF d s ok] .
qed

theorem FileList_compare_events_witness:
  "{p. (p, Added) \<in> set [(''/a/3.txt'', Added), (''/a/2.txt'', Removed)]} = {''/a/3.txt''} \<and>
   {p. (p, Removed) \<in> set [(''/a/3.txt'', Added), (''/a/2.txt'', Removed)]} = {''/a/2.txt''}"
proof -
  have d: "distinct (map path (FileList_list (world_of [file_at ''/a/1.txt'' 1, file_at ''/a/2.txt'' 2] [])))"
    by simp
  have h: "FileList_compare [''/a/1.txt'' \<mapsto> 1, ''/a/3.txt'' \<mapsto> 3] [''/a/1.txt'', ''/a/3.txt'']
       (world_of [file_at ''/a/1.txt'' 1, file_at ''/a/2.txt'' 2] []) =
     Inr (world_of [file_at ''/a/1.txt'' 1, file_at ''/a/3.txt'' 3]
          [(''/a/3.txt'', Added), (''/a/2.txt'', Removed)])"
    by (simp add: watch_simps)
  from FileList_compare_events [OF d h] obtain evs where
    "evs = [(''/a/3.txt'', Added), (''/a/2.txt'', Removed)]"
    "{p. (p, Added) \<in> set evs} = set [''/a/1.txt'', ''/a/3.txt''] - {''/a/1.txt'', ''/a/2.txt''}"
    "{p. (p, Removed) \<in> set evs} \<subseteq> {''/a/1.txt'', ''/a/2.txt''} - set [''/a/1.txt'', ''/a/3.txt'']"
    by auto
  then show ?thesis by auto
qed

theorem watch_reach_stopped_log_witness:
  "replay (logged (crawled0\<lparr>logged := logged crawled0 @ [(''/data/new.txt'', Added)]\<rparr>)) -
     tracked (crawled0\<lparr>logged := logged crawled0 @ [(''/data/new.txt'', Added)]\<rparr>)
   \<subseteq> {p. FileNotFoundError ''/data/new.txt'' = FileNotFoundError p}"
proof -
  let ?tree1 = "[FileNode ''a.txt'', FileNode ''new.txt'', FileNode ''.h'', DirNode ''sub'' [FileNode ''b.txt'']]"
  have wf1: "wf_tree ?tree1" by (simp add: wf_tree_def wf_entries_def name_ok_def)
  have "watch_reach args0 (state_of (watch_cycle args0 ?tree1 stat0 crawled0))"
    using reach_crawled0 wf1 by (rule watch_reach.cycle)
  moreover have "watch_cycle args0 ?tree1 stat0 crawled0 =
      Inl (FileNotFoundError ''/data/new.txt'',
           crawled0\<lparr>logged := logged crawled0 @ [(''/data/new.txt'', Added)]\<rparr>)"
    by (simp add: watch_simps)
  ultimately have r: "watch_reach args0 (Stopped (FileNotFoundError ''/data/new.txt'')
                        (crawled0\<lparr>logged := logged crawled0 @ [(''/data/new.txt'', Added)]\<rparr>))"
    by simp
  have o: "open_path (folder_location args0)" using data_open by simp
  show ?thesis using watch_reach_stopped_log [OF o r] by blast
qed

theorem folder_analyze_listing_witness:
  "set [''/data/a.txt'', ''/data/sub''] =
     {x \<in> set (forest_entries ''/data'' tree0). count_sep x = Suc (count_sep ''/data'') \<or> int (count_sep x) \<le> 1 + 1}"
proof -
  have h: "folder_analyze ''/data'' tree0 1 = Inr [''/data/a.txt'', ''/data/sub'']"
    by (simp add: watch_simps)
  show ?thesis using folder_analyze_listing [OF tree0_nodes data_open h] .
qed

theorem FileList_compare_order_independent_witness:
  "set (drop 0 [(''/a/3'', Added), (''/a/4'', Added)]) = set (drop 0 [(''/a/4'', Added), (''/a/3'', Added)]) \<and>
   tracked (world_of [file_at ''/a/1'' 1, file_at ''/a/3'' 3, file_at ''/a/4'' 4] [(''/a/3'', Added), (''/a/4'', Added)]) =
   tracked (world_of [file_at ''/a/1'' 1, file_at ''/a/4'' 4, file_at ''/a/3'' 3] [(''/a/4'', Added), (''/a/3'', Added)])"
proof -
  have d: "distinct (map path (FileList_list (world_of [file_at ''/a/1'' 1] [])))" by simp
  have s: "set [''/a/1'', ''/a/3'', ''/a/4''] = set [''/a/4'', ''/a/3'', ''/a/1'']" by auto
  have h1: "FileList_compare [''/a/1'' \<mapsto> 1, ''/a/3'' \<mapsto> 3, ''/a/4'' \<mapsto> 4] [''/a/1'', ''/a/3'', ''/a/4'']
              (world_of [file_at ''/a/1'' 1] []) =
            Inr (world_of [file_at ''/a/1'' 1, file_at ''/a/3'' 3, file_at ''/a/4'' 4]
                   [(''/a/3'', Added), (''/a/4'', Added)])"
    by (simp add: watch_simps)
  have h2: "FileList_compare [''/a/1'' \<mapsto> 1, ''/a/3'' \<mapsto> 3, ''/a/4'' \<mapsto> 4] [''/a/4'', ''/a/3'', ''/a/1'']
              (world_of [file_at ''/a/1'' 1] []) =
            Inr (world_of [file_at ''/a/1'' 1, file_at ''/a/4'' 4, file_at ''/a/3'' 3]
                   [(''/a/4'', Added), (''/a/3'', Added)])"
    by (simp add: watch_simps)
  show ?thesis using FileList_compare_order_independent [OF d s h1 h2] by simp
qed

theorem FileList_compare_first_vanished_witness:
  "\<exists>w0. FileList_compare [''/a/1.txt'' \<mapsto> (1::nat)] [''/a/1.txt'', ''/a/4.txt'', ''/a/5.txt'']
          (world_of [file_at ''/a/1.txt'' 1] []) = Inl (FileNotFoundError ''/a/4.txt'', w0) \<and>
        tracked w0 = {''/a/1.txt''} \<and>
        (\<exists>evs. logged w0 = evs @ [(''/a/4.txt'', Added)] \<and> fst ` set evs \<subseteq> {''/a/1.txt''})"
proof -
  have fl: "[''/a/1.txt'', ''/a/4.txt'', ''/a/5.txt''] = [''/a/1.txt''] @ ''/a/4.txt'' # [''/a/5.txt'']" by simp
  have ok: "\<forall>p \<in> set [''/a/1.txt'']. [''/a/1.txt'' \<mapsto> (1::nat)] p \<noteq> None" by simp
  have q: "[''/a/1.txt'' \<mapsto> (1::nat)] ''/a/4.txt'' = None" by simp
  from FileList_compare_first_vanished [OF fl ok q, of "world_of [file_at ''/a/1.txt'' 1] []"]
  obtain w0 evs where
    r: "FileList_compare [''/a/1.txt'' \<mapsto> (1::nat)] [''/a/1.txt'', ''/a/4.txt'', ''/a/5.txt'']
          (world_of [file_at ''/a/1.txt'' 1] []) = Inl (FileNotFoundError ''/a/4.txt'', w0)"
    and t: "tracked w0 = tracked (world_of [file_at ''/a/1.txt'' (1::nat)] []) \<union> set [''/a/1.txt'']"
    and l: "logged w0 = logged (world_of [file_at ''/a/1.txt'' (1::nat)] []) @ evs @
              (if ''/a/4.txt'' \<in> tracked (world_of [file_at ''/a/1.txt'' (1::nat)] []) then []
               else [(''/a/4.txt'', Added)])"
    and e: "fst ` set evs \<subseteq> set [''/a/1.txt'']"
    by blast
  from t have "tracked w0 = {''/a/1.txt''}" by simp
  moreover from l have "logged w0 = evs @ [(''/a/4.txt'', Added)]" by simp
  moreover from e have "fst ` set evs \<subseteq> {''/a/1.txt''}" by simp
  ultimately show ?thesis using r by blast
qed

theorem main_function_stable_folder_witness:
  "Watching crawled0 =
   Watching \<lparr>FileList_list = map (\<lambda>p. \<lparr>path = p, attributes = the (stat0 p)\<rparr>)
                               [''/data/a.txt'', ''/data/sub'', ''/data/sub/b.txt''],
             logged = map (\<lambda>p. (p, Found)) [''/data/a.txt'', ''/data/sub'', ''/data/sub/b.txt'']\<rparr>"
proof -
  have o: "open_path (folder_location args0)" using data_open by simp
  have fa: "folder_analyze (folder_location args0) tree0 (depth args0) =
              Inr [''/data/a.txt'', ''/data/sub'', ''/data/sub/b.txt'']"
    using tree0_listing by simp
  have ok: "\<forall>p \<in> set [''/data/a.txt'', ''/data/sub'', ''/data/sub/b.txt'']. stat0 p \<noteq> None" by simp
  show ?thesis using main_function_stable_folder [OF main0 tree0_wf o fa ok] .
qed

end
